theory Spec2Isabelle
  imports Complex_Main
begin

section \<open>RamSim: the data model of \<^verbatim>\<open>RamSimEnv\<close>\<close>

text \<open>
  The environment of \<^verbatim>\<open>src/ramsim/environment.py\<close> keeps a \<open>k \<times> 4\<close> array
  \<^verbatim>\<open>process_table\<close> (one row \<^verbatim>\<open>[RAM, CPU, Priority, State]\<close> per slot), an array
  \<^verbatim>\<open>swapped_processes\<close> of the same shape (the swap backups), the vector
  \<^verbatim>\<open>system_stats\<close> and a step counter. The arrays hold \<^verbatim>\<open>float32\<close> numbers; they are
  modelled as real numbers, so the rounding of sums and products is not part of the
  model. The state of a slot is the number the code stores and compares: 1.0 Running,
  0.6 Suspended, 0.3 Swapped, 0 Killed. In the handlers of the next section a stored
  state code equals the literal it is compared with (\<^verbatim>\<open>state == 0.3\<close>): that is the
  comparison of NumPy 2, which rounds the literal to \<^verbatim>\<open>float32\<close> first. NumPy 1.x
  compares the stored \<^verbatim>\<open>float32\<close> with the double of the literal, and they differ for
  0.3 and 0.6; the handlers that test these codes are modelled under that comparison
  too, in a section of their own (\<open>handle_swap_out_widened\<close> and the definitions after
  it, up to \<open>step_widened\<close>).
\<close>

record proc =
  ram :: real
  cpu :: real
  priority :: real
  state :: real

text \<open>\<^verbatim>\<open>np.array([0, 0, 0, 0], dtype=np.float32)\<close>: a killed row, and a cleared backup.\<close>

definition zero_row :: proc where
  "zero_row = \<lparr>ram = 0, cpu = 0, priority = 0, state = 0\<rparr>"

text \<open>
  Modelled from the spec: the index constants \<^verbatim>\<open>RAM_USAGE_INDEX\<close>, \<^verbatim>\<open>CPU_USAGE_INDEX\<close>,
  \<^verbatim>\<open>PAGE_FAULTS_INDEX\<close>, \<^verbatim>\<open>SWAP_USAGE_INDEX\<close>, \<^verbatim>\<open>POWER_INDEX\<close> of
  \<^verbatim>\<open>ramsim/utils/constants.py\<close> are not among the sources. The vector is
  \<^verbatim>\<open>[RAM usage, CPU usage, Page faults, Swap usage, Power consumption]\<close> (the class
  docstring, the order in which \<^verbatim>\<open>_update_system_stats\<close> builds it and
  \<^verbatim>\<open>_calculate_global_reward\<close> unpacks it), and each constant selects the entry of
  its name: \<^verbatim>\<open>system_stats[RAM_USAGE_INDEX]\<close> is the field \<open>ram_usage\<close>.
\<close>

record stats =
  ram_usage :: real
  cpu_usage :: real
  page_faults :: real
  swap_usage :: real
  power_stat :: real

text \<open>
  The instance. \<open>np_random\<close> is the seed of the generator that Gymnasium's
  \<^verbatim>\<open>Env.reset(seed=seed)\<close> creates for the instance (\<^verbatim>\<open>self.np_random\<close>); no method
  of the class reads it.
\<close>

record env =
  k :: nat
  process_table :: "proc list"
  swapped_processes :: "proc list"
  system_stats :: stats
  current_step :: nat
  np_random :: "int option"

datatype error = IndexError | ValueError

text \<open>\<^verbatim>\<open>__init__\<close>: both tables are \<^verbatim>\<open>np.zeros((k, 4))\<close>, the statistics are zero.\<close>

definition init :: "nat \<Rightarrow> env" where
  "init n = \<lparr>k = n, process_table = replicate n zero_row,
     swapped_processes = replicate n zero_row,
     system_stats = \<lparr>ram_usage = 0, cpu_usage = 0, page_faults = 0, swap_usage = 0,
       power_stat = 0\<rparr>,
     current_step = 0, np_random = None\<rparr>"

text \<open>\<^verbatim>\<open>np.clip(x, lo, hi)\<close> is \<^verbatim>\<open>minimum(maximum(x, lo), hi)\<close>.\<close>

definition clip :: "real \<Rightarrow> real \<Rightarrow> real \<Rightarrow> real" where
  "clip x lo hi = min (max x lo) hi"

text \<open>
  Indexing a Python list (or a NumPy vector) with an integer: a negative index counts
  from the end, anything else out of range raises \<^verbatim>\<open>IndexError\<close>.
\<close>

definition py_index :: "'a list \<Rightarrow> int \<Rightarrow> error + 'a" where
  "py_index xs i =
     (let n = int (length xs) in
      if 0 \<le> i \<and> i < n then Inr (xs ! nat i)
      else if - n \<le> i \<and> i < 0 then Inr (xs ! nat (n + i))
      else Inl IndexError)"

section \<open>The action handlers\<close>

text \<open>
  A handler reads row \<open>index\<close> of the table first, which raises \<^verbatim>\<open>IndexError\<close> when the
  table has no such row (the no-op reads nothing); it then returns its local reward and
  leaves the instance mutated. Both tables have \<open>k\<close> rows in every instance the class
  builds, so a write to \<^verbatim>\<open>swapped_processes[index]\<close> is in range when the read of
  \<^verbatim>\<open>process_table[index]\<close> was.
\<close>

definition handle_kill :: "env \<Rightarrow> nat \<Rightarrow> error + (real \<times> env)" where
  "handle_kill s index =
     (if length (process_table s) \<le> index then Inl IndexError
      else let r = process_table s ! index in
        if state r \<noteq> 0 then
          Inr ((if ram r > 0.4 \<and> priority r > 0.6 then - 10
                else if ram r > 0.4 \<and> priority r \<le> 0.2 \<and> cpu r < 0.1 then 20
                else - 2),
               s\<lparr>process_table := (process_table s)[index := zero_row],
                 swapped_processes := (swapped_processes s)[index := zero_row]\<rparr>)
        else Inr (- 1, s))"

definition handle_swap_out :: "env \<Rightarrow> nat \<Rightarrow> error + (real \<times> env)" where
  "handle_swap_out s index =
     (if length (process_table s) \<le> index then Inl IndexError
      else let r = process_table s ! index in
        if state r = 0.3 then Inr (- 2, s)
        else if state r = 0 then Inr (- 5, s)
        else
          Inr ((if state r = 0.6 then 5 else 2)
                 + (if ram_usage (system_stats s) \<ge> 0.8 then 10 else 0),
               s\<lparr>swapped_processes := (swapped_processes s)[index := r],
                 process_table := (process_table s)
                   [index := \<lparr>ram = 0, cpu = 0, priority = priority r, state = 0.3\<rparr>]\<rparr>))"

definition handle_swap_in :: "env \<Rightarrow> nat \<Rightarrow> error + (real \<times> env)" where
  "handle_swap_in s index =
     (if length (process_table s) \<le> index then Inl IndexError
      else let r = process_table s ! index in
        if state r \<noteq> 0.3 then Inr (- 2, s)
        else let backup = swapped_processes s ! index;
                 predicted_ram_usage = ram_usage (system_stats s) + ram backup in
          if predicted_ram_usage > 1.0 then Inr (- 10, s)
          else
            Inr (priority backup * 5 - (if predicted_ram_usage \<ge> 0.8 then 15 else 0),
                 s\<lparr>process_table := (process_table s)
                     [index := \<lparr>ram = ram backup, cpu = cpu backup,
                                 priority = priority backup, state = 1.0\<rparr>],
                   swapped_processes := (swapped_processes s)[index := zero_row]\<rparr>))"

definition handle_suspend :: "env \<Rightarrow> nat \<Rightarrow> error + (real \<times> env)" where
  "handle_suspend s index =
     (if length (process_table s) \<le> index then Inl IndexError
      else let r = process_table s ! index in
        if state r = 0.6 then Inr (- 2, s)
        else if state r = 0.3 then Inr (- 3, s)
        else if state r = 0 then Inr (- 5, s)
        else
          Inr ((if ram r > 0.4 then 5 else 0)
                 + (if ram_usage (system_stats s) \<ge> 0.8 then 10 else 0)
                 - (if priority r > 0.6 then 12 else 0),
               s\<lparr>process_table := (process_table s)
                   [index := r\<lparr>state := 0.6, cpu := 0, ram := ram r * 0.5\<rparr>]\<rparr>))"

definition handle_resume :: "env \<Rightarrow> nat \<Rightarrow> error + (real \<times> env)" where
  "handle_resume s index =
     (if length (process_table s) \<le> index then Inl IndexError
      else let r = process_table s ! index in
        if state r \<noteq> 0.6 then Inr (- 2, s)
        else let original_ram = ram r * 2;
                 predicted_ram_usage = ram_usage (system_stats s) + original_ram in
          if predicted_ram_usage > 1.0 then Inr (- 10, s)
          else
            Inr (priority r * 5 - (if predicted_ram_usage \<ge> 0.8 then 15 else 0),
                 s\<lparr>process_table := (process_table s)
                     [index := r\<lparr>state := 1.0, cpu := 0.2, ram := original_ram\<rparr>]\<rparr>))"

definition handle_renice_decrease :: "env \<Rightarrow> nat \<Rightarrow> error + (real \<times> env)" where
  "handle_renice_decrease s index =
     (if length (process_table s) \<le> index then Inl IndexError
      else let r = process_table s ! index in
        if state r = 0 then Inr (- 5, s)
        else if priority r \<le> 0.1 then Inr (- 2, s)
        else
          Inr ((if ram r > 0.6 \<and> cpu r < 0.05 then 10
                else if priority r > 0.6 \<and> cpu r > 0.4 then - 8
                else 0),
               s\<lparr>process_table := (process_table s)
                   [index := r\<lparr>priority := clip (priority r - 0.2) 0.0 1.0\<rparr>]\<rparr>))"

definition handle_renice_increase :: "env \<Rightarrow> nat \<Rightarrow> error + (real \<times> env)" where
  "handle_renice_increase s index =
     (if length (process_table s) \<le> index then Inl IndexError
      else let r = process_table s ! index in
        if state r = 0 then Inr (- 5, s)
        else if priority r \<ge> 0.95 then Inr (- 2, s)
        else
          Inr ((if cpu r > 0.5 then 10
                else if priority r < 0.2 \<and> ram r < 0.1 then - 8
                else 0),
               s\<lparr>process_table := (process_table s)
                   [index := r\<lparr>priority := clip (priority r + 0.2) 0.0 1.0\<rparr>]\<rparr>))"

definition handle_noop :: "env \<Rightarrow> nat \<Rightarrow> error + (real \<times> env)" where
  "handle_noop s index = Inr (0, s)"

text \<open>\<^verbatim>\<open>self.handlers\<close>, in the order of \<^verbatim>\<open>__init__\<close>: the action code is the position.\<close>

definition handlers :: "(env \<Rightarrow> nat \<Rightarrow> error + (real \<times> env)) list" where
  "handlers = [handle_kill, handle_swap_out, handle_swap_in, handle_suspend,
     handle_resume, handle_renice_increase, handle_renice_decrease, handle_noop]"

section \<open>The random source\<close>

text \<open>
  Every random number of the class comes from the module-level functions of
  \<^verbatim>\<open>numpy.random\<close> (\<^verbatim>\<open>np.random.randint\<close>, \<^verbatim>\<open>uniform\<close>, \<^verbatim>\<open>rand\<close>, \<^verbatim>\<open>choice\<close>,
  \<^verbatim>\<open>shuffle\<close>), which share one generator per Python process. That generator is the
  state \<open>rng\<close>, threaded through every method: a stream of uniform variates and the
  position of the next one. NumPy is not part of the repository; its functions are
  modelled by what they document: \<^verbatim>\<open>rand()\<close> returns the next variate \<open>u\<close> of
  \<open>[0, 1)\<close>, \<^verbatim>\<open>uniform(low, high)\<close> returns \<open>low + (high - low) * u\<close>,
  \<^verbatim>\<open>randint(low, high)\<close> an integer of \<open>[low, high)\<close>, \<^verbatim>\<open>choice(a, p=p)\<close> the entry of
  \<open>a\<close> at the position of \<open>u\<close> in the cumulated weights, and \<^verbatim>\<open>shuffle\<close> the
  Fisher-Yates exchange from the last position down.
\<close>

record rng =
  stream :: "nat \<Rightarrow> real"
  cursor :: nat

text \<open>What NumPy guarantees of its variates: each lies in \<open>[0, 1)\<close>.\<close>

definition valid_rng :: "rng \<Rightarrow> bool" where
  "valid_rng g = (\<forall>n. 0 \<le> stream g n \<and> stream g n < 1)"

definition random_sample :: "rng \<Rightarrow> real \<times> rng" where
  "random_sample g = (stream g (cursor g), g\<lparr>cursor := Suc (cursor g)\<rparr>)"

definition uniform :: "real \<Rightarrow> real \<Rightarrow> rng \<Rightarrow> real \<times> rng" where
  "uniform low high g = (let (u, g') = random_sample g in (low + (high - low) * u, g'))"

text \<open>\<^verbatim>\<open>randint(low, high)\<close> for \<open>low < high\<close>; NumPy raises \<^verbatim>\<open>ValueError\<close> otherwise,
  which the caller below checks before the call.\<close>

definition randint :: "int \<Rightarrow> int \<Rightarrow> rng \<Rightarrow> int \<times> rng" where
  "randint low high g =
     (let (u, g') = random_sample g in (low + \<lfloor>u * real_of_int (high - low)\<rfloor>, g'))"

fun cumsum :: "real \<Rightarrow> real list \<Rightarrow> real list" where
  "cumsum a [] = []"
| "cumsum a (p # ps) = (a + p) # cumsum (a + p) ps"

text \<open>\<^verbatim>\<open>cdf.searchsorted(u, side='right')\<close> on an ascending \<open>cdf\<close>: the number of
  entries that are \<open>\<le> u\<close>.\<close>

fun searchsorted_right :: "real list \<Rightarrow> real \<Rightarrow> nat" where
  "searchsorted_right [] u = 0"
| "searchsorted_right (c # cs) u = (if u < c then 0 else Suc (searchsorted_right cs u))"

text \<open>The position is within \<open>a\<close> because \<open>u < 1\<close>, the last entry of the cdf.\<close>

definition choice :: "'a list \<Rightarrow> real list \<Rightarrow> rng \<Rightarrow> 'a \<times> rng" where
  "choice a p g =
     (let (u, g') = random_sample g;
          cdf = cumsum 0 p;
          idx = searchsorted_right (map (\<lambda>c. c / last cdf) cdf) u
      in (a ! idx, g'))"

text \<open>\<^verbatim>\<open>for i in reversed(range(1, n)): j = random_interval(i); x[i], x[j] = x[j], x[i]\<close>,
  with \<open>j\<close> an integer of \<open>[0, i]\<close>.\<close>

fun shuffle_down :: "nat \<Rightarrow> 'a list \<Rightarrow> rng \<Rightarrow> 'a list \<times> rng" where
  "shuffle_down 0 xs g = (xs, g)"
| "shuffle_down (Suc i) xs g =
     (let (u, g') = random_sample g;
          j = nat \<lfloor>u * real (Suc (Suc i))\<rfloor>
      in shuffle_down i (xs[Suc i := xs ! j, j := xs ! Suc i]) g')"

definition shuffle :: "'a list \<Rightarrow> rng \<Rightarrow> 'a list \<times> rng" where
  "shuffle xs g = shuffle_down (length xs - 1) xs g"

section \<open>Telemetry and the global reward\<close>

definition update_system_stats :: "env \<Rightarrow> env" where
  "update_system_stats s =
     (let base_os_load = 0.10;
          total_cpu_usage = clip (sum_list (map cpu (process_table s))) 0 1;
          total_ram_usage = sum_list (map ram (process_table s)) + base_os_load;
          page_fault = 1 / (1 + exp (- (total_ram_usage - 0.8) * 10));
          raw_swap = max 0 (total_ram_usage - 1.0);
          swap = clip (raw_swap / 1.0) 0 1;
          raw_power = 50 + (total_cpu_usage * 100) + (total_ram_usage * 40);
          pw = clip (raw_power / 200) 0 1
      in s\<lparr>system_stats :=
           \<lparr>ram_usage = clip total_ram_usage 0 1, cpu_usage = total_cpu_usage,
            page_faults = page_fault, swap_usage = swap, power_stat = pw\<rparr>\<rparr>)"

definition calculate_global_reward :: "env \<Rightarrow> real" where
  "calculate_global_reward s =
     (let st = system_stats s;
          r_stability = (if ram_usage st \<ge> 0.9 then - 10 else 1.0);
          r_power = (1 - power_stat st) * 2;
          r_qos = sum_list (map (\<lambda>r. priority r * (if state r = 1.0 then 1 else 0))
                    (process_table s));
          r_trashing = - (swap_usage st + page_faults st) * 5
      in (0.4 * r_stability) + (0.2 * r_power) + (0.3 * r_qos) + (0.1 * r_trashing))"

section \<open>Dynamics and spawning\<close>

text \<open>A row \<^verbatim>\<open>[uniform(r0, r1), uniform(c0, c1), uniform(p0, p1), 1.0]\<close>, its entries
  drawn from left to right.\<close>

definition sample_process ::
  "real \<Rightarrow> real \<Rightarrow> real \<Rightarrow> real \<Rightarrow> real \<Rightarrow> real \<Rightarrow> rng \<Rightarrow> proc \<times> rng" where
  "sample_process r0 r1 c0 c1 p0 p1 g =
     (let (a, g1) = uniform r0 r1 g;
          (b, g2) = uniform c0 c1 g1;
          (c, g3) = uniform p0 p1 g2
      in (\<lparr>ram = a, cpu = b, priority = c, state = 1.0\<rparr>, g3))"

text \<open>The body of the loop of \<^verbatim>\<open>_apply_process_dynamics\<close> on the row it read. The leak
  test reads the values unpacked before the jitter.\<close>

definition dynamics_row :: "proc \<Rightarrow> rng \<Rightarrow> proc \<times> rng" where
  "dynamics_row r g =
     (if state r = 1.0 then
        let (cpu_jitter, g1) = uniform (- 0.05) 0.05 g;
            r1 = r\<lparr>cpu := clip (cpu r + cpu_jitter) 0.01 0.95\<rparr>;
            (r2, g2) =
              (if ram r > 0.6 \<and> cpu r < 0.1 then
                 let (leak_amount, g') = uniform 0.01 0.06 g1
                 in (r1\<lparr>ram := clip (ram r + leak_amount) 0 1\<rparr>, g')
               else
                 let (ram_jitter, g') = uniform (- 0.02) 0.02 g1
                 in (r1\<lparr>ram := clip (ram r + ram_jitter) 0.01 0.95\<rparr>, g'));
            (u, g3) = random_sample g2
        in if u < 0.02 then (zero_row, g3) else (r2, g3)
      else (r, g))"

text \<open>\<^verbatim>\<open>for i in range(self.k)\<close>: \<open>is\<close> is the indices still to visit.\<close>

fun dynamics_loop :: "env \<Rightarrow> rng \<Rightarrow> nat list \<Rightarrow> (error + unit) \<times> env \<times> rng" where
  "dynamics_loop s g [] = (Inr (), s, g)"
| "dynamics_loop s g (i # is) =
     (if length (process_table s) \<le> i then (Inl IndexError, s, g)
      else let (r', g') = dynamics_row (process_table s ! i) g
           in dynamics_loop (s\<lparr>process_table := (process_table s)[i := r']\<rparr>) g' is)"

definition apply_process_dynamics :: "env \<Rightarrow> rng \<Rightarrow> (error + unit) \<times> env \<times> rng" where
  "apply_process_dynamics s g = dynamics_loop s g [0..<k s]"

text \<open>The row a killed slot gets when \<^verbatim>\<open>_spawn_new_process\<close> respawns it.\<close>

definition spawn_row :: "rng \<Rightarrow> proc \<times> rng" where
  "spawn_row g =
     (let (profile_type, g1) =
            choice [''idle'', ''active'', ''heavy'', ''leaky''] [0.5, 0.3, 0.15, 0.05] g
      in if profile_type = ''heavy'' then sample_process 0.4 0.6 0.6 0.9 0.7 1.0 g1
         else if profile_type = ''leaky'' then sample_process 0.3 0.5 0.0 0.05 0.0 0.2 g1
         else if profile_type = ''active'' then sample_process 0.1 0.4 0.2 0.5 0.4 0.7 g1
         else sample_process 0.01 0.05 0.0 0.02 0.1 0.4 g1)"

fun spawn_loop :: "env \<Rightarrow> rng \<Rightarrow> nat list \<Rightarrow> env \<times> rng" where
  "spawn_loop s g [] = (s, g)"
| "spawn_loop s g (idx # rest) =
     (let (u, g1) = random_sample g
      in if u < 0.05 then
           let (r', g2) = spawn_row g1
           in spawn_loop (s\<lparr>process_table := (process_table s)[idx := r']\<rparr>) g2 rest
         else spawn_loop s g1 rest)"

text \<open>\<^verbatim>\<open>np.where(self.process_table[:, 3] == 0)[0]\<close>, computed once before the loop.\<close>

definition killed_indices :: "proc list \<Rightarrow> nat list" where
  "killed_indices t = filter (\<lambda>i. state (t ! i) = 0) [0..<length t]"

definition spawn_new_process :: "env \<Rightarrow> rng \<Rightarrow> env \<times> rng" where
  "spawn_new_process s g = spawn_loop s g (killed_indices (process_table s))"

section \<open>reset and step\<close>

record observation =
  obs_system_stats :: stats
  obs_process_table :: "proc list"

definition get_obs :: "env \<Rightarrow> observation" where
  "get_obs s = \<lparr>obs_system_stats = system_stats s, obs_process_table = process_table s\<rparr>"

text \<open>\<^verbatim>\<open>for _ in range(n): processes.append(...)\<close>.\<close>

fun sample_processes :: "nat \<Rightarrow> (rng \<Rightarrow> proc \<times> rng) \<Rightarrow> rng \<Rightarrow> proc list \<times> rng" where
  "sample_processes 0 f g = ([], g)"
| "sample_processes (Suc n) f g =
     (let (r, g1) = f g; (rs, g2) = sample_processes n f g1 in (r # rs, g2))"

text \<open>
  \<^verbatim>\<open>reset(seed)\<close>. \<^verbatim>\<open>super().reset(seed=seed)\<close> seeds the instance's own generator
  when a seed is given; the draws that follow are those of \<^verbatim>\<open>np.random\<close>. The third
  \<^verbatim>\<open>randint\<close> raises \<^verbatim>\<open>ValueError\<close> when its range is empty (\<open>k = 1\<close> with one heavy
  and one leaky process). With \<open>k = 0\<close> the table is the one-dimensional empty array and
  \<^verbatim>\<open>self.process_table[:, 1]\<close> raises \<^verbatim>\<open>IndexError\<close>. Section 3 of the method repeats
  \<^verbatim>\<open>_update_system_stats\<close> line by line.
\<close>

definition reset ::
  "env \<Rightarrow> int option \<Rightarrow> rng \<Rightarrow> (error + (observation \<times> string)) \<times> env \<times> rng" where
  "reset s seed g =
     (let s1 = s\<lparr>np_random := (case seed of None \<Rightarrow> np_random s | Some n \<Rightarrow> Some n),
                 current_step := 0\<rparr>;
          (heavy_count, g1) = randint 0 2 g;
          (leaky_count, g2) = randint 0 2 g1
      in if int (k s) - heavy_count - leaky_count + 1 \<le> 0 then (Inl ValueError, s1, g2)
         else
           let (active_count, g3) = randint 0 (int (k s) - heavy_count - leaky_count + 1) g2;
               (heavy, g4) = sample_processes (nat heavy_count)
                               (sample_process 0.4 0.6 0.6 0.9 0.7 1.0) g3;
               (leaky, g5) = sample_processes (nat leaky_count)
                               (sample_process 0.6 0.8 0.0 0.05 0.0 0.2) g4;
               (active, g6) = sample_processes (nat active_count)
                               (sample_process 0.1 0.4 0.2 0.5 0.4 0.7) g5;
               processes = heavy @ leaky @ active;
               (idle, g7) = sample_processes (k s - length processes)
                               (sample_process 0.01 0.05 0.0 0.02 0.1 0.4) g6;
               (shuffled, g8) = shuffle (processes @ idle) g7;
               s2 = s1\<lparr>process_table := shuffled,
                       swapped_processes := replicate (k s) zero_row\<rparr>
           in if k s = 0 then (Inl IndexError, s2, g8)
              else let s3 = update_system_stats s2
                   in (Inr (get_obs s3, ''env_initialized''), s3, g8))"

text \<open>The loop of \<^verbatim>\<open>step\<close> over the slots: \<^verbatim>\<open>reward += self.handlers[action[i]](i)\<close>.\<close>

fun handler_loop :: "env \<Rightarrow> int list \<Rightarrow> nat list \<Rightarrow> real \<Rightarrow> (error + real) \<times> env" where
  "handler_loop s action [] rw = (Inr rw, s)"
| "handler_loop s action (i # is) rw =
     (case py_index action (int i) of
        Inl e \<Rightarrow> (Inl e, s)
      | Inr process_action \<Rightarrow>
          (case py_index handlers process_action of
             Inl e \<Rightarrow> (Inl e, s)
           | Inr h \<Rightarrow>
               (case h s i of
                  Inl e \<Rightarrow> (Inl e, s)
                | Inr (x, s') \<Rightarrow> handler_loop s' action is (rw + x))))"

record step_info =
  info_step :: nat
  info_ram_usage :: real
  info_cpu_usage :: real
  info_page_faults :: real
  info_swap_usage :: real
  info_power :: real

record step_result =
  res_obs :: observation
  res_reward :: real
  res_terminated :: bool
  res_truncated :: bool
  res_info :: step_info

definition step :: "env \<Rightarrow> rng \<Rightarrow> int list \<Rightarrow> (error + step_result) \<times> env \<times> rng" where
  "step s g action =
     (let s1 = s\<lparr>current_step := current_step s + 1\<rparr>
      in case handler_loop s1 action [0..<k s1] 0 of
           (Inl e, s2) \<Rightarrow> (Inl e, s2, g)
         | (Inr rw, s2) \<Rightarrow>
             (case apply_process_dynamics s2 g of
                (Inl e, s3, g3) \<Rightarrow> (Inl e, s3, g3)
              | (Inr u, s3, g3) \<Rightarrow>
                  let (s4, g4) = spawn_new_process s3 g3;
                      s5 = update_system_stats s4;
                      rw' = rw + calculate_global_reward s5;
                      st = system_stats s5
                  in (Inr \<lparr>res_obs = get_obs s5, res_reward = rw',
                           res_terminated = (ram_usage st \<ge> 1.0), res_truncated = False,
                           res_info = \<lparr>info_step = current_step s5,
                             info_ram_usage = ram_usage st, info_cpu_usage = cpu_usage st,
                             info_page_faults = page_faults st,
                             info_swap_usage = swap_usage st,
                             info_power = power_stat st\<rparr>\<rparr>,
                      s5, g4)))"


section \<open>Invariants and reachable states\<close>

text \<open>The fields of a row as the observation space declares them (\<^verbatim>\<open>Box(low=0, high=1)\<close>), and
  the state one of the four codes.\<close>

definition row_in_range :: "proc \<Rightarrow> bool" where
  "row_in_range r =
     (0 \<le> ram r \<and> ram r \<le> 1 \<and> 0 \<le> cpu r \<and> cpu r \<le> 1 \<and>
      0 \<le> priority r \<and> priority r \<le> 1 \<and>
      (state r = 1.0 \<or> state r = 0.6 \<or> state r = 0.3 \<or> state r = 0))"

text \<open>What holds of a row \<open>r\<close> of the table and the backup \<open>b\<close> of the same slot: both are in
  range, the backup is non-zero exactly when the slot is Swapped, and a Swapped row has
  neither RAM nor CPU.\<close>

definition slot_inv :: "proc \<Rightarrow> proc \<Rightarrow> bool" where
  "slot_inv r b =
     (row_in_range r \<and> row_in_range b \<and>
      ((b \<noteq> zero_row) = (state r = 0.3)) \<and>
      (state r = 0.3 \<longrightarrow> ram r = 0 \<and> cpu r = 0))"

text \<open>The invariant of an instance: both tables have \<open>k\<close> rows, the reported RAM usage is
  not negative, and every slot satisfies \<open>slot_inv\<close>.\<close>

definition env_inv :: "env \<Rightarrow> bool" where
  "env_inv s =
     (length (process_table s) = k s \<and> length (swapped_processes s) = k s \<and>
      0 \<le> ram_usage (system_stats s) \<and>
      (\<forall>i<k s. slot_inv (process_table s ! i) (swapped_processes s ! i)))"

text \<open>A row as \<^verbatim>\<open>reset\<close> generates it: in range and Running.\<close>

definition fresh_row :: "proc \<Rightarrow> bool" where
  "fresh_row r = (row_in_range r \<and> state r = 1)"

text \<open>
  The states of an instance after a \<^verbatim>\<open>reset\<close> that returned, followed by any calls of
  \<^verbatim>\<open>step\<close> with any argument, whether the call returned or raised (\<open>s'\<close> is the
  instance as the call left it). The generator is in any state NumPy can leave it in.
\<close>

inductive reachable :: "env \<Rightarrow> bool" where
  reach_reset: "valid_rng g \<Longrightarrow> reset e seed g = (Inr r, s, g') \<Longrightarrow> reachable s"
| reach_step: "reachable s \<Longrightarrow> valid_rng g \<Longrightarrow> step s g action = (out, s', g') \<Longrightarrow>
    reachable s'"

section \<open>Concrete runs\<close>

text \<open>
  Three states of the generator, each a constant stream, and the instances they lead to:
  \<open>ex_idle\<close> is one idle process; \<open>ex_swapped\<close> is \<open>ex_idle\<close> after a swap-out of its
  slot; \<open>ex_pair\<close> is a heavy and a leaky process, \<open>ex_pair_swapped\<close> the same after a
  no-op on the heavy one and a swap-out of the leaky one; \<open>ex_top\<close> is a heavy process of
  priority 0.97 and a leaky one.
\<close>

definition ex_rng_zero :: rng where "ex_rng_zero = \<lparr>stream = (\<lambda>n. 0), cursor = 0\<rparr>"

definition ex_rng_half :: rng where "ex_rng_half = \<lparr>stream = (\<lambda>n. 1 / 2), cursor = 0\<rparr>"

definition ex_rng_high :: rng where "ex_rng_high = \<lparr>stream = (\<lambda>n. 9 / 10), cursor = 0\<rparr>"

definition ex_idle :: env where
  "ex_idle = fst (snd (reset (init 1) (Some 42) ex_rng_zero))"

definition ex_swapped :: env where
  "ex_swapped = fst (snd (step ex_idle ex_rng_zero [1]))"

definition ex_pair :: env where
  "ex_pair = fst (snd (reset (init 2) (Some 42) ex_rng_half))"

definition ex_pair_swapped :: env where
  "ex_pair_swapped = fst (snd (step ex_pair ex_rng_half [7, 1]))"

definition ex_top :: env where
  "ex_top = fst (snd (reset (init 2) (Some 42) ex_rng_high))"

text \<open>\<open>ex_suspended\<close> is \<open>ex_idle\<close> after a suspend of its slot.\<close>

definition ex_suspended :: env where
  "ex_suspended = fst (snd (step ex_idle ex_rng_zero [3]))"

text \<open>The invariant of the swap backups on its own: both tables have \<open>k\<close> rows, and a slot's
  backup is a non-zero row exactly when the slot's state is 0.3.\<close>

definition backup_inv :: "env \<Rightarrow> bool" where
  "backup_inv s =
     (length (process_table s) = k s \<and> length (swapped_processes s) = k s \<and>
      (\<forall>i<k s. (swapped_processes s ! i \<noteq> zero_row) = (state (process_table s ! i) = 0.3)))"

text \<open>A generator whose first variate respawns a slot (0.01 < 0.05) and whose second selects
  the last profile (0.97 is beyond 0.95); every later variate is 1/2.\<close>

definition ex_rng_leaky :: rng where
  "ex_rng_leaky =
     \<lparr>stream = (\<lambda>n. if n = 0 then 0.01 else if n = 1 then 0.97 else 0.5), cursor = 0\<rparr>"

text \<open>A generator whose first ten variates are 0 and whose later ones are 1/2.\<close>

definition ex_rng_seq :: rng where
  "ex_rng_seq = \<lparr>stream = (\<lambda>n. if n < 10 then 0 else 1 / 2), cursor = 0\<rparr>"

text \<open>Two instances of \<open>k = 2\<close> reset with the same seed, one after the other in one Python
  process: the second call finds the module-level generator where the first left it.\<close>

definition ex_first_reset :: "(error + (observation \<times> string)) \<times> env \<times> rng" where
  "ex_first_reset = reset (init 2) (Some 42) ex_rng_seq"

definition ex_second_reset :: "(error + (observation \<times> string)) \<times> env \<times> rng" where
  "ex_second_reset = reset (init 2) (Some 42) (snd (snd ex_first_reset))"

section \<open>State codes as NumPy 1.x compares them\<close>

text \<open>
  The rows are \<^verbatim>\<open>float32\<close>. A state code written into a row is rounded to \<^verbatim>\<open>float32\<close>:
  0.3 is stored as \<open>10066330 / 2^25\<close> and 0.6 as \<open>10066330 / 2^24\<close> (1.0 and 0 are
  exact). A handler unpacks the row into \<^verbatim>\<open>float32\<close> scalars and compares them with
  Python literals, which are doubles: 0.3 is \<open>5404319552844595 / 2^54\<close>, 0.6 is
  \<open>5404319552844595 / 2^53\<close>, 0.4 is \<open>7205759403792794 / 2^54\<close> and 0.8 is
  \<open>7205759403792794 / 2^53\<close>. NumPy 2 converts the literal to \<^verbatim>\<open>float32\<close> before it
  compares, so a stored code equals its literal; the handlers of the sections above are
  the code under that comparison. NumPy 1.x, which \<^verbatim>\<open>setup.py\<close> admits
  (\<^verbatim>\<open>numpy>=1.21.0\<close>), widens the scalar to a double and compares the two doubles.
\<close>

definition f32_0_3 :: real where "f32_0_3 = 10066330 / 2 ^ 25"

definition f32_0_6 :: real where "f32_0_6 = 10066330 / 2 ^ 24"

definition f64_0_3 :: real where "f64_0_3 = 5404319552844595 / 2 ^ 54"

definition f64_0_6 :: real where "f64_0_6 = 5404319552844595 / 2 ^ 53"

definition f64_0_4 :: real where "f64_0_4 = 7205759403792794 / 2 ^ 54"

definition f64_0_8 :: real where "f64_0_8 = 7205759403792794 / 2 ^ 53"

text \<open>
  \<^verbatim>\<open>_handle_swap_out\<close>, \<^verbatim>\<open>_handle_swap_in\<close>, \<^verbatim>\<open>_handle_suspend\<close> and \<^verbatim>\<open>_handle_resume\<close>
  as NumPy 1.x evaluates them: statement for statement the handlers above, with the
  literal of a comparison the double and a stored state code the \<^verbatim>\<open>float32\<close>. Sums and
  products are exact, as everywhere in the model.
\<close>

definition handle_swap_out_widened :: "env \<Rightarrow> nat \<Rightarrow> error + (real \<times> env)" where
  "handle_swap_out_widened s index =
     (if length (process_table s) \<le> index then Inl IndexError
      else let r = process_table s ! index in
        if state r = f64_0_3 then Inr (- 2, s)
        else if state r = 0 then Inr (- 5, s)
        else
          Inr ((if state r = f64_0_6 then 5 else 2)
                 + (if ram_usage (system_stats s) \<ge> f64_0_8 then 10 else 0),
               s\<lparr>swapped_processes := (swapped_processes s)[index := r],
                 process_table := (process_table s)
                   [index := \<lparr>ram = 0, cpu = 0, priority = priority r, state = f32_0_3\<rparr>]\<rparr>))"

definition handle_swap_in_widened :: "env \<Rightarrow> nat \<Rightarrow> error + (real \<times> env)" where
  "handle_swap_in_widened s index =
     (if length (process_table s) \<le> index then Inl IndexError
      else let r = process_table s ! index in
        if state r \<noteq> f64_0_3 then Inr (- 2, s)
        else let backup = swapped_processes s ! index;
                 predicted_ram_usage = ram_usage (system_stats s) + ram backup in
          if predicted_ram_usage > 1.0 then Inr (- 10, s)
          else
            Inr (priority backup * 5 - (if predicted_ram_usage \<ge> f64_0_8 then 15 else 0),
                 s\<lparr>process_table := (process_table s)
                     [index := \<lparr>ram = ram backup, cpu = cpu backup,
                                 priority = priority backup, state = 1.0\<rparr>],
                   swapped_processes := (swapped_processes s)[index := zero_row]\<rparr>))"

definition handle_suspend_widened :: "env \<Rightarrow> nat \<Rightarrow> error + (real \<times> env)" where
  "handle_suspend_widened s index =
     (if length (process_table s) \<le> index then Inl IndexError
      else let r = process_table s ! index in
        if state r = f64_0_6 then Inr (- 2, s)
        else if state r = f64_0_3 then Inr (- 3, s)
        else if state r = 0 then Inr (- 5, s)
        else
          Inr ((if ram r > f64_0_4 then 5 else 0)
                 + (if ram_usage (system_stats s) \<ge> f64_0_8 then 10 else 0)
                 - (if priority r > f64_0_6 then 12 else 0),
               s\<lparr>process_table := (process_table s)
                   [index := r\<lparr>state := f32_0_6, cpu := 0, ram := ram r * 0.5\<rparr>]\<rparr>))"

definition handle_resume_widened :: "env \<Rightarrow> nat \<Rightarrow> error + (real \<times> env)" where
  "handle_resume_widened s index =
     (if length (process_table s) \<le> index then Inl IndexError
      else let r = process_table s ! index in
        if state r \<noteq> f64_0_6 then Inr (- 2, s)
        else let original_ram = ram r * 2;
                 predicted_ram_usage = ram_usage (system_stats s) + original_ram in
          if predicted_ram_usage > 1.0 then Inr (- 10, s)
          else
            Inr (priority r * 5 - (if predicted_ram_usage \<ge> f64_0_8 then 15 else 0),
                 s\<lparr>process_table := (process_table s)
                     [index := r\<lparr>state := 1.0, cpu := 0.2, ram := original_ram\<rparr>]\<rparr>))"

text \<open>\<^verbatim>\<open>self.handlers\<close> and \<^verbatim>\<open>step\<close> under NumPy 1.x. Kill, the two renices and the no-op
  compare a state with 0 only and are the handlers above; the loop over the slots, the
  dynamics pass (which tests the state against 1.0), the spawn pass (against 0), the
  statistics and the global reward are those of \<open>step\<close>.\<close>

definition handlers_widened :: "(env \<Rightarrow> nat \<Rightarrow> error + (real \<times> env)) list" where
  "handlers_widened = [handle_kill, handle_swap_out_widened, handle_swap_in_widened,
     handle_suspend_widened, handle_resume_widened, handle_renice_increase,
     handle_renice_decrease, handle_noop]"

fun handler_loop_widened ::
  "env \<Rightarrow> int list \<Rightarrow> nat list \<Rightarrow> real \<Rightarrow> (error + real) \<times> env" where
  "handler_loop_widened s action [] rw = (Inr rw, s)"
| "handler_loop_widened s action (i # is) rw =
     (case py_index action (int i) of
        Inl e \<Rightarrow> (Inl e, s)
      | Inr process_action \<Rightarrow>
          (case py_index handlers_widened process_action of
             Inl e \<Rightarrow> (Inl e, s)
           | Inr h \<Rightarrow>
               (case h s i of
                  Inl e \<Rightarrow> (Inl e, s)
                | Inr (x, s') \<Rightarrow> handler_loop_widened s' action is (rw + x))))"

definition step_widened :: "env \<Rightarrow> rng \<Rightarrow> int list \<Rightarrow> (error + step_result) \<times> env \<times> rng" where
  "step_widened s g action =
     (let s1 = s\<lparr>current_step := current_step s + 1\<rparr>
      in case handler_loop_widened s1 action [0..<k s1] 0 of
           (Inl e, s2) \<Rightarrow> (Inl e, s2, g)
         | (Inr rw, s2) \<Rightarrow>
             (case apply_process_dynamics s2 g of
                (Inl e, s3, g3) \<Rightarrow> (Inl e, s3, g3)
              | (Inr u, s3, g3) \<Rightarrow>
                  let (s4, g4) = spawn_new_process s3 g3;
                      s5 = update_system_stats s4;
                      rw' = rw + calculate_global_reward s5;
                      st = system_stats s5
                  in (Inr \<lparr>res_obs = get_obs s5, res_reward = rw',
                           res_terminated = (ram_usage st \<ge> 1.0), res_truncated = False,
                           res_info = \<lparr>info_step = current_step s5,
                             info_ram_usage = ram_usage st, info_cpu_usage = cpu_usage st,
                             info_page_faults = page_faults st,
                             info_swap_usage = swap_usage st,
                             info_power = power_stat st\<rparr>\<rparr>,
                      s5, g4)))"

text \<open>The instance \<open>ex_idle\<close> (one idle process, Running) after a swap-out of its slot, and
  after a suspend of its slot, under NumPy 1.x; and each of them after one more step:
  a swap-in and a suspend of the swapped-out slot, a suspend of the suspended slot.\<close>

definition ex_widened_swapped :: env where
  "ex_widened_swapped = fst (snd (step_widened ex_idle ex_rng_zero [1]))"

definition ex_widened_suspended :: env where
  "ex_widened_suspended = fst (snd (step_widened ex_idle ex_rng_zero [3]))"

definition ex_widened_swap_in :: "(error + step_result) \<times> env \<times> rng" where
  "ex_widened_swap_in = step_widened ex_widened_swapped ex_rng_zero [2]"

definition ex_widened_swapped_suspend :: "(error + step_result) \<times> env \<times> rng" where
  "ex_widened_swapped_suspend = step_widened ex_widened_swapped ex_rng_zero [3]"

definition ex_widened_suspend_again :: "(error + step_result) \<times> env \<times> rng" where
  "ex_widened_suspend_again = step_widened ex_widened_suspended ex_rng_zero [3]"

section \<open>The invariant is kept by every operation\<close>

lemma row_in_range_zero: "row_in_range zero_row"
  by (simp add: row_in_range_def zero_row_def)

lemma slot_inv_zero: "slot_inv zero_row zero_row"
  by (simp add: slot_inv_def row_in_range_zero) (simp add: zero_row_def)

lemma env_inv_update_both:
  assumes "env_inv s" and "slot_inv r' b'"
  shows "env_inv (s\<lparr>process_table := (process_table s)[i := r'],
                    swapped_processes := (swapped_processes s)[i := b']\<rparr>)"
proof -
  have "slot_inv ((process_table s)[i := r'] ! j) ((swapped_processes s)[i := b'] ! j)"
    if "j < k s" for j
  proof (cases "i = j")
    case True
    with that assms show ?thesis by (simp add: env_inv_def)
  next
    case False
    with that assms show ?thesis by (simp add: env_inv_def)
  qed
  with assms(1) show ?thesis by (simp add: env_inv_def)
qed

lemma env_inv_update_both':
  assumes "env_inv s" and "slot_inv r' b'"
  shows "env_inv (s\<lparr>swapped_processes := (swapped_processes s)[i := b'],
                    process_table := (process_table s)[i := r']\<rparr>)"
  using env_inv_update_both [OF assms, of i] by (simp add: env_inv_def)

lemma env_inv_update_row:
  assumes "env_inv s" and "i < k s \<Longrightarrow> slot_inv r' (swapped_processes s ! i)"
  shows "env_inv (s\<lparr>process_table := (process_table s)[i := r']\<rparr>)"
proof -
  have "slot_inv ((process_table s)[i := r'] ! j) (swapped_processes s ! j)"
    if "j < k s" for j
  proof (cases "i = j")
    case True
    with that assms show ?thesis by (simp add: env_inv_def)
  next
    case False
    with that assms show ?thesis by (simp add: env_inv_def)
  qed
  with assms(1) show ?thesis by (simp add: env_inv_def)
qed

lemma env_inv_slot: "env_inv s \<Longrightarrow> i < length (process_table s) \<Longrightarrow>
   slot_inv (process_table s ! i) (swapped_processes s ! i)"
  by (simp add: env_inv_def)

lemma handle_kill_inv: "env_inv s \<Longrightarrow> handle_kill s i = Inr (x, s') \<Longrightarrow> env_inv s'"
  by (auto simp: handle_kill_def Let_def split: if_splits
      intro!: env_inv_update_both slot_inv_zero)

lemma handle_swap_out_inv:
  assumes "env_inv s" and "handle_swap_out s i = Inr (x, s')"
  shows "env_inv s'"
proof (cases "i < length (process_table s)")
  case False
  with assms show ?thesis by (simp add: handle_swap_out_def)
next
  case True
  let ?r = "process_table s ! i"
  from assms(1) True have si: "slot_inv ?r (swapped_processes s ! i)"
    by (rule env_inv_slot)
  show ?thesis
  proof (cases "state ?r = 0.3 \<or> state ?r = 0")
    case True
    with assms \<open>i < length (process_table s)\<close> show ?thesis
      by (auto simp: handle_swap_out_def Let_def)
  next
    case False
    with si have "slot_inv \<lparr>ram = 0, cpu = 0, priority = priority ?r, state = 0.3\<rparr> ?r"
      by (auto simp: slot_inv_def row_in_range_def zero_row_def)
    with assms False \<open>i < length (process_table s)\<close> show ?thesis
      by (auto simp: handle_swap_out_def Let_def intro!: env_inv_update_both')
  qed
qed

lemma handle_swap_in_inv:
  assumes "env_inv s" and "handle_swap_in s i = Inr (x, s')"
  shows "env_inv s'"
proof (cases "i < length (process_table s)")
  case False
  with assms show ?thesis by (simp add: handle_swap_in_def)
next
  case True
  let ?r = "process_table s ! i" and ?b = "swapped_processes s ! i"
  from assms(1) True have si: "slot_inv ?r ?b"
    by (rule env_inv_slot)
  have "slot_inv \<lparr>ram = ram ?b, cpu = cpu ?b, priority = priority ?b, state = 1.0\<rparr> zero_row"
    using si by (auto simp: slot_inv_def row_in_range_def zero_row_def)
  with assms True show ?thesis
    by (auto simp: handle_swap_in_def Let_def split: if_splits intro!: env_inv_update_both)
qed

lemma handle_suspend_inv:
  assumes "env_inv s" and "handle_suspend s i = Inr (x, s')"
  shows "env_inv s'"
proof (cases "i < length (process_table s)")
  case False
  with assms show ?thesis by (simp add: handle_suspend_def)
next
  case True
  let ?r = "process_table s ! i" and ?b = "swapped_processes s ! i"
  from assms(1) True have si: "slot_inv ?r ?b"
    by (rule env_inv_slot)
  have "state ?r = 1 \<Longrightarrow> slot_inv (?r\<lparr>state := 0.6, cpu := 0, ram := ram ?r * 0.5\<rparr>) ?b"
    using si by (auto simp: slot_inv_def row_in_range_def)
  moreover have "state ?r = 1 \<or> state ?r = 0.6 \<or> state ?r = 0.3 \<or> state ?r = 0"
    using si by (auto simp: slot_inv_def row_in_range_def)
  ultimately show ?thesis using assms True
    by (auto simp: handle_suspend_def Let_def split: if_splits intro!: env_inv_update_row)
qed

lemma handle_resume_inv:
  assumes "env_inv s" and "handle_resume s i = Inr (x, s')"
  shows "env_inv s'"
proof (cases "i < length (process_table s)")
  case False
  with assms show ?thesis by (simp add: handle_resume_def)
next
  case True
  let ?r = "process_table s ! i" and ?b = "swapped_processes s ! i"
  from assms(1) True have si: "slot_inv ?r ?b"
    by (rule env_inv_slot)
  from assms(1) have u: "0 \<le> ram_usage (system_stats s)"
    by (simp add: env_inv_def)
  have "state ?r = 0.6 \<Longrightarrow> ram_usage (system_stats s) + ram ?r * 2 \<le> 1 \<Longrightarrow>
      slot_inv (?r\<lparr>state := 1.0, cpu := 0.2, ram := ram ?r * 2\<rparr>) ?b"
    using si u by (auto simp: slot_inv_def row_in_range_def)
  with assms True show ?thesis
    by (auto simp: handle_resume_def Let_def split: if_splits intro!: env_inv_update_row)
qed

lemma clip_bounds: "lo \<le> hi \<Longrightarrow> lo \<le> clip x lo hi \<and> clip x lo hi \<le> hi"
  by (auto simp: clip_def)

lemma clip_unit:
  assumes "0 \<le> lo" and "lo \<le> hi" and "hi \<le> 1"
  shows "0 \<le> clip x lo hi" and "clip x lo hi \<le> 1"
  using assms by (auto simp: clip_def)

lemma handle_renice_decrease_inv:
  assumes "env_inv s" and "handle_renice_decrease s i = Inr (x, s')"
  shows "env_inv s'"
proof (cases "i < length (process_table s)")
  case False
  with assms show ?thesis by (simp add: handle_renice_decrease_def)
next
  case True
  let ?r = "process_table s ! i" and ?b = "swapped_processes s ! i"
  from assms(1) True have si: "slot_inv ?r ?b"
    by (rule env_inv_slot)
  have "slot_inv (?r\<lparr>priority := clip (priority ?r - 0.2) 0.0 1.0\<rparr>) ?b"
    using si clip_bounds [of 0 1 "priority ?r - 0.2"]
    by (auto simp: slot_inv_def row_in_range_def)
  with assms True show ?thesis
    by (auto simp: handle_renice_decrease_def Let_def split: if_splits
        intro!: env_inv_update_row)
qed

lemma handle_renice_increase_inv:
  assumes "env_inv s" and "handle_renice_increase s i = Inr (x, s')"
  shows "env_inv s'"
proof (cases "i < length (process_table s)")
  case False
  with assms show ?thesis by (simp add: handle_renice_increase_def)
next
  case True
  let ?r = "process_table s ! i" and ?b = "swapped_processes s ! i"
  from assms(1) True have si: "slot_inv ?r ?b"
    by (rule env_inv_slot)
  have "slot_inv (?r\<lparr>priority := clip (priority ?r + 0.2) 0.0 1.0\<rparr>) ?b"
    using si clip_bounds [of 0 1 "priority ?r + 0.2"]
    by (auto simp: slot_inv_def row_in_range_def)
  with assms True show ?thesis
    by (auto simp: handle_renice_increase_def Let_def split: if_splits
        intro!: env_inv_update_row)
qed

lemma py_index_mem: "py_index xs a = Inr h \<Longrightarrow> h \<in> set xs"
  by (auto simp: py_index_def Let_def split: if_splits)

lemma handlers_frame:
  assumes "h \<in> set handlers" and "h s i = Inr (x, s')"
  shows "k s' = k s \<and> system_stats s' = system_stats s \<and>
         current_step s' = current_step s \<and> np_random s' = np_random s \<and>
         length (process_table s') = length (process_table s) \<and>
         length (swapped_processes s') = length (swapped_processes s)"
  using assms
  by (auto simp: handlers_def handle_kill_def handle_swap_out_def handle_swap_in_def
      handle_suspend_def handle_resume_def handle_renice_increase_def
      handle_renice_decrease_def handle_noop_def Let_def split: if_splits)

lemma handlers_inv:
  assumes "h \<in> set handlers" and "env_inv s" and "h s i = Inr (x, s')"
  shows "env_inv s'"
  using assms
  by (auto simp: handlers_def handle_noop_def
      dest: handle_kill_inv handle_swap_out_inv handle_swap_in_inv handle_suspend_inv
        handle_resume_inv handle_renice_increase_inv handle_renice_decrease_inv)

lemma handler_loop_inv:
  "env_inv s \<Longrightarrow> handler_loop s action is rw = (out, s') \<Longrightarrow> env_inv s'"
proof (induction "is" arbitrary: s rw)
  case Nil
  then show ?case by simp
next
  case (Cons i "is")
  then show ?case
    by (auto split: sum.splits dest: py_index_mem handlers_inv)
qed

lemma handler_loop_frame:
  "handler_loop s action is rw = (out, s') \<Longrightarrow>
     k s' = k s \<and> system_stats s' = system_stats s \<and> current_step s' = current_step s"
proof (induction "is" arbitrary: s rw)
  case Nil
  then show ?case by simp
next
  case (Cons i "is")
  show ?case
  proof (cases "py_index action (int i)")
    case (Inl e)
    with Cons.prems show ?thesis by simp
  next
    case (Inr a)
    show ?thesis
    proof (cases "py_index handlers a")
      case (Inl e)
      with Cons.prems Inr show ?thesis by simp
    next
      case hr: (Inr h)
      show ?thesis
      proof (cases "h s i")
        case (Inl e)
        with Cons.prems Inr hr show ?thesis by simp
      next
        case hs: (Inr p)
        obtain x s1 where p: "p = (x, s1)" by (cases p)
        from Cons.prems Inr hr hs p
        have "handler_loop s1 action is (rw + x) = (out, s')" by simp
        from Cons.IH [OF this] handlers_frame [OF py_index_mem [OF hr] hs [unfolded p]]
        show ?thesis by simp
      qed
    qed
  qed
qed

lemma random_sample_valid: "valid_rng g \<Longrightarrow>
   0 \<le> fst (random_sample g) \<and> fst (random_sample g) < 1 \<and> valid_rng (snd (random_sample g))"
  by (simp add: random_sample_def valid_rng_def)

lemma uniform_valid:
  assumes "valid_rng g" and "lo \<le> hi"
  shows "lo \<le> fst (uniform lo hi g) \<and> fst (uniform lo hi g) \<le> hi \<and>
         valid_rng (snd (uniform lo hi g))"
proof -
  let ?u = "fst (random_sample g)"
  from random_sample_valid [OF assms(1)] have u: "0 \<le> ?u" "?u \<le> 1"
    and v: "valid_rng (snd (random_sample g))" by simp_all
  from u assms(2) have "0 \<le> (hi - lo) * ?u" by simp
  moreover from u assms(2) have "(hi - lo) * ?u \<le> (hi - lo) * 1"
    by (intro mult_left_mono) simp_all
  ultimately show ?thesis using v
    by (simp add: uniform_def split_def Let_def)
qed

lemma sample_process_valid:
  assumes "valid_rng g" and "0 \<le> r0" "r0 \<le> r1" "r1 \<le> 1" and "0 \<le> c0" "c0 \<le> c1" "c1 \<le> 1"
    and "0 \<le> p0" "p0 \<le> p1" "p1 \<le> 1"
  shows "row_in_range (fst (sample_process r0 r1 c0 c1 p0 p1 g)) \<and>
         state (fst (sample_process r0 r1 c0 c1 p0 p1 g)) = 1 \<and>
         valid_rng (snd (sample_process r0 r1 c0 c1 p0 p1 g))"
proof -
  let ?g1 = "snd (uniform r0 r1 g)"
  let ?g2 = "snd (uniform c0 c1 ?g1)"
  from uniform_valid [OF assms(1) assms(3)]
  have a: "r0 \<le> fst (uniform r0 r1 g)" "fst (uniform r0 r1 g) \<le> r1" "valid_rng ?g1"
    by simp_all
  from uniform_valid [OF a(3) assms(6)]
  have b: "c0 \<le> fst (uniform c0 c1 ?g1)" "fst (uniform c0 c1 ?g1) \<le> c1" "valid_rng ?g2"
    by simp_all
  from uniform_valid [OF b(3) assms(9)]
  have c: "p0 \<le> fst (uniform p0 p1 ?g2)" "fst (uniform p0 p1 ?g2) \<le> p1"
    "valid_rng (snd (uniform p0 p1 ?g2))"
    by simp_all
  from a b c assms show ?thesis
    by (simp add: sample_process_def split_def Let_def row_in_range_def)
qed

lemma choice_valid: "valid_rng g \<Longrightarrow> valid_rng (snd (choice a p g))"
  by (simp add: choice_def split_def Let_def random_sample_valid)

lemma spawn_row_valid:
  assumes "valid_rng g"
  shows "row_in_range (fst (spawn_row g)) \<and> state (fst (spawn_row g)) = 1 \<and>
         valid_rng (snd (spawn_row g))"
proof -
  let ?c = "choice [''idle'', ''active'', ''heavy'', ''leaky''] [0.5, 0.3, 0.15, 0.05] g"
  have v: "valid_rng (snd ?c)" using assms by (rule choice_valid)
  have h: "row_in_range (fst (sample_process 0.4 0.6 0.6 0.9 0.7 1.0 (snd ?c))) \<and>
      state (fst (sample_process 0.4 0.6 0.6 0.9 0.7 1.0 (snd ?c))) = 1 \<and>
      valid_rng (snd (sample_process 0.4 0.6 0.6 0.9 0.7 1.0 (snd ?c)))"
    by (rule sample_process_valid [OF v]) simp_all
  have l: "row_in_range (fst (sample_process 0.3 0.5 0.0 0.05 0.0 0.2 (snd ?c))) \<and>
      state (fst (sample_process 0.3 0.5 0.0 0.05 0.0 0.2 (snd ?c))) = 1 \<and>
      valid_rng (snd (sample_process 0.3 0.5 0.0 0.05 0.0 0.2 (snd ?c)))"
    by (rule sample_process_valid [OF v]) simp_all
  have a: "row_in_range (fst (sample_process 0.1 0.4 0.2 0.5 0.4 0.7 (snd ?c))) \<and>
      state (fst (sample_process 0.1 0.4 0.2 0.5 0.4 0.7 (snd ?c))) = 1 \<and>
      valid_rng (snd (sample_process 0.1 0.4 0.2 0.5 0.4 0.7 (snd ?c)))"
    by (rule sample_process_valid [OF v]) simp_all
  have i: "row_in_range (fst (sample_process 0.01 0.05 0.0 0.02 0.1 0.4 (snd ?c))) \<and>
      state (fst (sample_process 0.01 0.05 0.0 0.02 0.1 0.4 (snd ?c))) = 1 \<and>
      valid_rng (snd (sample_process 0.01 0.05 0.0 0.02 0.1 0.4 (snd ?c)))"
    by (rule sample_process_valid [OF v]) simp_all
  show ?thesis
    unfolding spawn_row_def split_def Let_def using h l a i by presburger
qed

lemma dynamics_row_valid: "valid_rng g \<Longrightarrow> valid_rng (snd (dynamics_row r g))"
  by (simp add: dynamics_row_def split_def Let_def uniform_valid random_sample_valid)

lemma dynamics_row_slot_inv:
  assumes "slot_inv r b"
  shows "slot_inv (fst (dynamics_row r g)) b"
proof (cases "state r = 1")
  case False
  with assms show ?thesis by (simp add: dynamics_row_def)
next
  case True
  with assms have b: "b = zero_row" and rb: "row_in_range b" and p: "0 \<le> priority r" "priority r \<le> 1"
    by (auto simp: slot_inv_def row_in_range_def)
  have "row_in_range (fst (dynamics_row r g)) \<and>
        (state (fst (dynamics_row r g)) = 1 \<or> state (fst (dynamics_row r g)) = 0)"
    using True p
    by (simp add: dynamics_row_def split_def Let_def row_in_range_def zero_row_def clip_unit)
  with b rb show ?thesis
    by (auto simp: slot_inv_def)
qed

lemma dynamics_loop_inv:
  "env_inv s \<Longrightarrow> dynamics_loop s g is = (out, s', g') \<Longrightarrow> env_inv s'"
proof (induction "is" arbitrary: s g)
  case Nil
  then show ?case by simp
next
  case (Cons i "is")
  show ?case
  proof (cases "length (process_table s) \<le> i")
    case True
    with Cons.prems show ?thesis by simp
  next
    case False
    let ?r = "fst (dynamics_row (process_table s ! i) g)"
    let ?s = "s\<lparr>process_table := (process_table s)[i := ?r]\<rparr>"
    from False Cons.prems(1) have "slot_inv ?r (swapped_processes s ! i)"
      by (intro dynamics_row_slot_inv env_inv_slot) simp_all
    then have "env_inv ?s" by (intro env_inv_update_row Cons.prems(1))
    moreover from Cons.prems(2) False
    have "dynamics_loop ?s (snd (dynamics_row (process_table s ! i) g)) is = (out, s', g')"
      by (simp add: split_def Let_def)
    ultimately show ?thesis by (rule Cons.IH)
  qed
qed

lemma dynamics_loop_valid:
  "valid_rng g \<Longrightarrow> dynamics_loop s g is = (out, s', g') \<Longrightarrow> valid_rng g'"
proof (induction "is" arbitrary: s g)
  case Nil
  then show ?case by simp
next
  case (Cons i "is")
  show ?case
  proof (cases "length (process_table s) \<le> i")
    case True
    with Cons.prems show ?thesis by simp
  next
    case False
    from Cons.prems(1) have "valid_rng (snd (dynamics_row (process_table s ! i) g))"
      by (rule dynamics_row_valid)
    moreover from Cons.prems(2) False
    have "dynamics_loop (s\<lparr>process_table :=
        (process_table s)[i := fst (dynamics_row (process_table s ! i) g)]\<rparr>)
        (snd (dynamics_row (process_table s ! i) g)) is = (out, s', g')"
      by (simp add: split_def Let_def)
    ultimately show ?thesis by (rule Cons.IH)
  qed
qed

lemma dynamics_loop_frame:
  "dynamics_loop s g is = (out, s', g') \<Longrightarrow>
     k s' = k s \<and> swapped_processes s' = swapped_processes s \<and>
     current_step s' = current_step s \<and>
     length (process_table s') = length (process_table s)"
proof (induction "is" arbitrary: s g)
  case Nil
  then show ?case by simp
next
  case (Cons i "is")
  show ?case
  proof (cases "length (process_table s) \<le> i")
    case True
    with Cons.prems show ?thesis by simp
  next
    case False
    from Cons.prems False
    have "dynamics_loop (s\<lparr>process_table :=
        (process_table s)[i := fst (dynamics_row (process_table s ! i) g)]\<rparr>)
        (snd (dynamics_row (process_table s ! i) g)) is = (out, s', g')"
      by (simp add: split_def Let_def)
    from Cons.IH [OF this] show ?thesis by simp
  qed
qed

lemma dynamics_loop_returns:
  "\<forall>i\<in>set is. i < length (process_table s) \<Longrightarrow>
     fst (dynamics_loop s g is) = Inr ()"
proof (induction "is" arbitrary: s g)
  case Nil
  then show ?case by simp
next
  case (Cons i "is")
  then show ?case by (simp add: split_def Let_def)
qed

lemma spawn_loop_inv:
  assumes "env_inv s" and "valid_rng g"
    and "\<forall>i\<in>set idxs. i < k s \<longrightarrow> swapped_processes s ! i = zero_row"
  shows "env_inv (fst (spawn_loop s g idxs)) \<and> valid_rng (snd (spawn_loop s g idxs))"
  using assms
proof (induction idxs arbitrary: s g)
  case Nil
  then show ?case by simp
next
  case (Cons idx rest)
  let ?g1 = "snd (random_sample g)"
  from Cons.prems(2) have v1: "valid_rng ?g1" by (simp add: random_sample_valid)
  show ?case
  proof (cases "fst (random_sample g) < 0.05")
    case False
    with Cons.IH [OF Cons.prems(1) v1] Cons.prems(3) show ?thesis
      by (simp add: split_def Let_def)
  next
    case True
    let ?r = "fst (spawn_row ?g1)"
    let ?s = "s\<lparr>process_table := (process_table s)[idx := ?r]\<rparr>"
    from spawn_row_valid [OF v1]
    have r: "row_in_range ?r" "state ?r = 1" and v2: "valid_rng (snd (spawn_row ?g1))"
      by simp_all
    have "slot_inv ?r (swapped_processes s ! idx)" if "idx < k s"
      using that Cons.prems(3) r
      by (simp add: slot_inv_def row_in_range_zero)
    with Cons.prems(1) have "env_inv ?s" by (intro env_inv_update_row)
    moreover from Cons.prems(3)
    have "\<forall>i\<in>set rest. i < k ?s \<longrightarrow> swapped_processes ?s ! i = zero_row"
      by simp
    ultimately have "env_inv (fst (spawn_loop ?s (snd (spawn_row ?g1)) rest)) \<and>
        valid_rng (snd (spawn_loop ?s (snd (spawn_row ?g1)) rest))"
      using v2 by (intro Cons.IH)
    with True show ?thesis by (simp add: split_def Let_def)
  qed
qed

lemma spawn_loop_frame:
  "k (fst (spawn_loop s g idxs)) = k s \<and>
   swapped_processes (fst (spawn_loop s g idxs)) = swapped_processes s \<and>
   current_step (fst (spawn_loop s g idxs)) = current_step s \<and>
   length (process_table (fst (spawn_loop s g idxs))) = length (process_table s)"
  by (induction idxs arbitrary: s g) (simp_all add: split_def Let_def)

lemma spawn_new_process_inv:
  assumes "env_inv s" and "valid_rng g"
  shows "env_inv (fst (spawn_new_process s g)) \<and> valid_rng (snd (spawn_new_process s g))"
  unfolding spawn_new_process_def
proof (rule spawn_loop_inv [OF assms], intro ballI impI)
  fix i
  assume "i \<in> set (killed_indices (process_table s))" and "i < k s"
  then have "state (process_table s ! i) = 0" by (simp add: killed_indices_def)
  with \<open>i < k s\<close> assms(1) show "swapped_processes s ! i = zero_row"
    by (auto simp: env_inv_def slot_inv_def)
qed

lemma update_system_stats_inv: "env_inv s \<Longrightarrow> env_inv (update_system_stats s)"
  by (simp add: env_inv_def update_system_stats_def Let_def clip_def)

lemma step_inv:
  assumes "env_inv s" and "valid_rng g" and "step s g action = (out, s', g')"
  shows "env_inv s'"
proof -
  let ?s1 = "s\<lparr>current_step := current_step s + 1\<rparr>"
  from assms(1) have i1: "env_inv ?s1" by (simp add: env_inv_def)
  obtain o2 s2 where hl: "handler_loop ?s1 action [0..<k ?s1] 0 = (o2, s2)"
    by (cases "handler_loop ?s1 action [0..<k ?s1] 0")
  from handler_loop_inv [OF i1 hl] have i2: "env_inv s2" .
  show ?thesis
  proof (cases o2)
    case (Inl e)
    with assms(3) hl i2 show ?thesis by (simp add: step_def Let_def)
  next
    case (Inr rw)
    obtain o3 s3 g3 where dl: "apply_process_dynamics s2 g = (o3, s3, g3)"
      by (cases "apply_process_dynamics s2 g")
    from dl i2 have i3: "env_inv s3"
      unfolding apply_process_dynamics_def by (rule dynamics_loop_inv [rotated])
    from dl assms(2) have v3: "valid_rng g3"
      unfolding apply_process_dynamics_def by (rule dynamics_loop_valid [rotated])
    show ?thesis
    proof (cases o3)
      case (Inl e)
      with assms(3) hl Inr dl i3 show ?thesis by (simp add: step_def Let_def)
    next
      case r3: (Inr u)
      from spawn_new_process_inv [OF i3 v3]
      have "env_inv (update_system_stats (fst (spawn_new_process s3 g3)))"
        by (simp add: update_system_stats_inv)
      with assms(3) hl Inr dl r3 show ?thesis
        by (auto simp: step_def Let_def split_def)
    qed
  qed
qed

lemma randint_valid:
  assumes "valid_rng g" and "lo < hi"
  shows "lo \<le> fst (randint lo hi g) \<and> fst (randint lo hi g) < hi \<and>
         valid_rng (snd (randint lo hi g))"
proof -
  let ?u = "fst (random_sample g)"
  from random_sample_valid [OF assms(1)] have u: "0 \<le> ?u" "?u < 1"
    and v: "valid_rng (snd (random_sample g))" by simp_all
  from assms(2) have d: "0 < real_of_int (hi - lo)" by simp
  from u(1) d have "0 \<le> ?u * real_of_int (hi - lo)" by simp
  then have a: "0 \<le> \<lfloor>?u * real_of_int (hi - lo)\<rfloor>" by simp
  from u(2) d have "?u * real_of_int (hi - lo) < 1 * real_of_int (hi - lo)"
    by (intro mult_strict_right_mono)
  then have b: "\<lfloor>?u * real_of_int (hi - lo)\<rfloor> < hi - lo"
    by (simp add: floor_less_iff)
  from a b v show ?thesis
    by (simp add: randint_def split_def Let_def)
qed

lemma sample_processes_valid:
  assumes "valid_rng g"
    and "\<And>g. valid_rng g \<Longrightarrow> P (fst (f g)) \<and> valid_rng (snd (f g))"
  shows "(\<forall>r\<in>set (fst (sample_processes n f g)). P r) \<and>
         length (fst (sample_processes n f g)) = n \<and>
         valid_rng (snd (sample_processes n f g))"
  using assms(1)
proof (induction n arbitrary: g)
  case 0
  then show ?case by simp
next
  case (Suc n)
  from assms(2) [OF Suc.prems] have "P (fst (f g))" and "valid_rng (snd (f g))"
    by simp_all
  with Suc.IH [of "snd (f g)"] show ?case
    by (simp add: split_def Let_def)
qed

lemma shuffle_down_valid:
  assumes "valid_rng g" and "i < length xs"
  shows "set (fst (shuffle_down i xs g)) = set xs \<and>
         length (fst (shuffle_down i xs g)) = length xs \<and>
         valid_rng (snd (shuffle_down i xs g))"
  using assms
proof (induction i arbitrary: xs g)
  case 0
  then show ?case by simp
next
  case (Suc i)
  let ?u = "fst (random_sample g)"
  let ?j = "nat \<lfloor>?u * real (Suc (Suc i))\<rfloor>"
  let ?ys = "xs[Suc i := xs ! ?j, ?j := xs ! Suc i]"
  from random_sample_valid [OF Suc.prems(1)] have u: "0 \<le> ?u" "?u < 1"
    and v: "valid_rng (snd (random_sample g))" by simp_all
  from u(2) have "?u * real (Suc (Suc i)) < 1 * real (Suc (Suc i))"
    by (intro mult_strict_right_mono) simp_all
  then have "\<lfloor>?u * real (Suc (Suc i))\<rfloor> < int (Suc (Suc i))"
    by (simp add: floor_less_iff)
  then have "?j < Suc (Suc i)" by linarith
  with Suc.prems(2) have j: "?j < length xs" by simp
  from Suc.prems(2) j have s: "set ?ys = set xs" by (simp add: set_swap)
  have l: "length ?ys = length xs" by simp
  from Suc.prems(2) have "i < length ?ys" by simp
  from Suc.IH [OF v this] s l show ?case
    by (simp add: split_def Let_def)
qed

lemma shuffle_valid:
  assumes "valid_rng g"
  shows "set (fst (shuffle xs g)) = set xs \<and> length (fst (shuffle xs g)) = length xs \<and>
         valid_rng (snd (shuffle xs g))"
proof (cases xs)
  case Nil
  with assms show ?thesis by (simp add: shuffle_def)
next
  case (Cons x ys)
  then have "length xs - 1 < length xs" by simp
  from shuffle_down_valid [OF assms this] show ?thesis by (simp add: shuffle_def)
qed

lemma sample_process_fresh:
  assumes "valid_rng g" and "0 \<le> r0" "r0 \<le> r1" "r1 \<le> 1" and "0 \<le> c0" "c0 \<le> c1" "c1 \<le> 1"
    and "0 \<le> p0" "p0 \<le> p1" "p1 \<le> 1"
  shows "fresh_row (fst (sample_process r0 r1 c0 c1 p0 p1 g)) \<and>
         valid_rng (snd (sample_process r0 r1 c0 c1 p0 p1 g))"
  using sample_process_valid [OF assms] by (simp add: fresh_row_def)

lemma reset_inv:
  assumes "valid_rng g" and "reset s seed g = (Inr r, s', g')"
  shows "env_inv s'"
proof -
  define h where "h = fst (randint 0 2 g)"
  define g1 where "g1 = snd (randint 0 2 g)"
  define l where "l = fst (randint 0 2 g1)"
  define g2 where "g2 = snd (randint 0 2 g1)"
  define a where "a = fst (randint 0 (int (k s) - h - l + 1) g2)"
  define g3 where "g3 = snd (randint 0 (int (k s) - h - l + 1) g2)"
  define hv where "hv = sample_processes (nat h) (sample_process 0.4 0.6 0.6 0.9 0.7 1.0) g3"
  define lk where "lk = sample_processes (nat l) (sample_process 0.6 0.8 0.0 0.05 0.0 0.2) (snd hv)"
  define ac where "ac = sample_processes (nat a) (sample_process 0.1 0.4 0.2 0.5 0.4 0.7) (snd lk)"
  define ps where "ps = fst hv @ fst lk @ fst ac"
  define idl where "idl = sample_processes (k s - length ps)
      (sample_process 0.01 0.05 0.0 0.02 0.1 0.4) (snd ac)"
  define sh where "sh = shuffle (ps @ fst idl) (snd idl)"
  define s2 where "s2 = s\<lparr>np_random := (case seed of None \<Rightarrow> np_random s | Some n \<Rightarrow> Some n),
      current_step := 0, process_table := fst sh,
      swapped_processes := replicate (k s) zero_row\<rparr>"
  have eq: "reset s seed g =
     (if int (k s) - h - l + 1 \<le> 0
      then (Inl ValueError,
            s\<lparr>np_random := (case seed of None \<Rightarrow> np_random s | Some n \<Rightarrow> Some n),
              current_step := 0\<rparr>, g2)
      else if k s = 0 then (Inl IndexError, s2, snd sh)
      else (Inr (get_obs (update_system_stats s2), ''env_initialized''),
            update_system_stats s2, snd sh))"
    by (simp add: reset_def Let_def split_def h_def g1_def l_def g2_def a_def g3_def
        hv_def lk_def ac_def ps_def idl_def sh_def s2_def)
  from assms(2) have pos: "\<not> int (k s) - h - l + 1 \<le> 0" and s': "s' = update_system_stats s2"
    by (auto simp: eq split: if_splits)
  from randint_valid [OF assms(1), of 0 2] have hb: "0 \<le> h" "h < 2" and v1: "valid_rng g1"
    by (simp_all add: h_def g1_def)
  from randint_valid [OF v1, of 0 2] have lb: "0 \<le> l" "l < 2" and v2: "valid_rng g2"
    by (simp_all add: l_def g2_def)
  from pos have "(0::int) < int (k s) - h - l + 1" by simp
  from randint_valid [OF v2 this]
  have ab: "0 \<le> a" "a < int (k s) - h - l + 1" and v3: "valid_rng g3"
    by (simp_all add: a_def g3_def)
  have hv: "(\<forall>r\<in>set (fst hv). fresh_row r) \<and> length (fst hv) = nat h \<and> valid_rng (snd hv)"
    unfolding hv_def
    by (rule sample_processes_valid [OF v3], rule sample_process_fresh) simp_all
  then have v4: "valid_rng (snd hv)" by simp
  have lk: "(\<forall>r\<in>set (fst lk). fresh_row r) \<and> length (fst lk) = nat l \<and> valid_rng (snd lk)"
    unfolding lk_def
    by (rule sample_processes_valid [OF v4], rule sample_process_fresh) simp_all
  then have v5: "valid_rng (snd lk)" by simp
  have ac: "(\<forall>r\<in>set (fst ac). fresh_row r) \<and> length (fst ac) = nat a \<and> valid_rng (snd ac)"
    unfolding ac_def
    by (rule sample_processes_valid [OF v5], rule sample_process_fresh) simp_all
  then have v6: "valid_rng (snd ac)" by simp
  have idl: "(\<forall>r\<in>set (fst idl). fresh_row r) \<and> length (fst idl) = k s - length ps \<and>
      valid_rng (snd idl)"
    unfolding idl_def
    by (rule sample_processes_valid [OF v6], rule sample_process_fresh) simp_all
  then have v7: "valid_rng (snd idl)" by simp
  from hv lk ac hb lb ab have "length ps \<le> k s"
    by (simp add: ps_def)
  with idl have len: "length (ps @ fst idl) = k s" by simp
  from hv lk ac idl have all: "\<forall>r\<in>set (ps @ fst idl). fresh_row r"
    by (auto simp: ps_def)
  from shuffle_valid [OF v7, of "ps @ fst idl"] len all
  have T: "length (fst sh) = k s" "\<forall>r\<in>set (fst sh). fresh_row r"
    by (simp_all add: sh_def)
  have "slot_inv (fst sh ! i) (replicate (k s) zero_row ! i)" if "i < k s" for i
  proof -
    from that T have "fresh_row (fst sh ! i)" by simp
    with that show ?thesis
      by (simp add: slot_inv_def fresh_row_def row_in_range_zero)
  qed
  with T(1) have "env_inv (update_system_stats s2)"
    by (simp add: env_inv_def update_system_stats_def Let_def clip_def s2_def)
  with s' show ?thesis by simp
qed

lemma reachable_inv: "reachable s \<Longrightarrow> env_inv s"
  by (induction rule: reachable.induct) (auto intro: reset_inv step_inv)

lemma handle_noop_id: "handle_noop s i = Inr (0, s)"
  by (simp add: handle_noop_def)

section \<open>The concrete runs, evaluated\<close>

lemmas reset_eval = reset_def init_def random_sample_def uniform_def randint_def
  shuffle_def sample_process_def Let_def get_obs_def numeral_2_eq_2

lemmas step_eval = step_def Let_def py_index_def handlers_def apply_process_dynamics_def
  dynamics_row_def spawn_new_process_def killed_indices_def spawn_row_def choice_def
  sample_process_def uniform_def random_sample_def get_obs_def numeral_2_eq_2

lemmas stats_eval = update_system_stats_def clip_def Let_def

lemma update_system_stats_frame:
  "k (update_system_stats s) = k s"
  "process_table (update_system_stats s) = process_table s"
  "swapped_processes (update_system_stats s) = swapped_processes s"
  "current_step (update_system_stats s) = current_step s"
  "np_random (update_system_stats s) = np_random s"
  by (simp_all add: update_system_stats_def Let_def)

lemma ex_rng_valid: "valid_rng ex_rng_zero" "valid_rng ex_rng_half" "valid_rng ex_rng_high"
  by (simp_all add: valid_rng_def ex_rng_zero_def ex_rng_half_def ex_rng_high_def)

lemma ex_idle_eval:
  "k ex_idle = 1"
  "process_table ex_idle = [\<lparr>ram = 0.01, cpu = 0, priority = 0.1, state = 1\<rparr>]"
  "swapped_processes ex_idle = [zero_row]"
  "ram_usage (system_stats ex_idle) = 0.11"
  "\<exists>r g'. reset (init 1) (Some 42) ex_rng_zero = (Inr r, ex_idle, g')"
  by (simp_all add: ex_idle_def ex_rng_zero_def reset_eval update_system_stats_frame)
     (simp_all add: stats_eval)

lemma ex_idle_reachable: "reachable ex_idle"
  using ex_idle_eval(5) reach_reset [OF ex_rng_valid(1)] by blast

lemma ex_swapped_eval:
  "k ex_swapped = 1"
  "process_table ex_swapped = [\<lparr>ram = 0, cpu = 0, priority = 0.1, state = 0.3\<rparr>]"
  "swapped_processes ex_swapped = [\<lparr>ram = 0.01, cpu = 0, priority = 0.1, state = 1\<rparr>]"
  "ram_usage (system_stats ex_swapped) = 0.1"
  by (simp_all add: ex_swapped_def ex_idle_eval ex_rng_zero_def step_eval handle_swap_out_def
       update_system_stats_frame)
     (simp_all add: stats_eval)

lemma ex_swapped_reachable: "reachable ex_swapped"
  unfolding ex_swapped_def
  by (rule reach_step [OF ex_idle_reachable ex_rng_valid(1), of "[1]"
      "fst (step ex_idle ex_rng_zero [1])" _ "snd (snd (step ex_idle ex_rng_zero [1]))"]) simp

lemma ex_pair_eval:
  "k ex_pair = 2"
  "process_table ex_pair = [\<lparr>ram = 0.5, cpu = 0.75, priority = 0.85, state = 1\<rparr>,
     \<lparr>ram = 0.7, cpu = 0.025, priority = 0.1, state = 1\<rparr>]"
  "swapped_processes ex_pair = [zero_row, zero_row]"
  "ram_usage (system_stats ex_pair) = 1"
  "\<exists>r g'. reset (init 2) (Some 42) ex_rng_half = (Inr r, ex_pair, g')"
  by (simp_all add: ex_pair_def ex_rng_half_def reset_eval update_system_stats_frame)
     (simp_all add: stats_eval)

lemma ex_top_eval:
  "k ex_top = 2"
  "process_table ex_top = [\<lparr>ram = 0.58, cpu = 0.87, priority = 0.97, state = 1\<rparr>,
     \<lparr>ram = 0.78, cpu = 0.045, priority = 0.18, state = 1\<rparr>]"
  "\<exists>r g'. reset (init 2) (Some 42) ex_rng_high = (Inr r, ex_top, g')"
  by (simp_all add: ex_top_def ex_rng_high_def reset_eval update_system_stats_frame)

lemma ex_pair_swapped_eval:
  "k ex_pair_swapped = 2"
  "process_table ex_pair_swapped = [\<lparr>ram = 0.5, cpu = 0.75, priority = 0.85, state = 1\<rparr>,
     \<lparr>ram = 0, cpu = 0, priority = 0.1, state = 0.3\<rparr>]"
  "swapped_processes ex_pair_swapped =
     [zero_row, \<lparr>ram = 0.7, cpu = 0.025, priority = 0.1, state = 1\<rparr>]"
  "ram_usage (system_stats ex_pair_swapped) = 0.6"
     apply (simp_all add: ex_pair_swapped_def ex_pair_eval ex_rng_half_def step_eval
        handle_swap_out_def handle_noop_def update_system_stats_frame)
     apply (simp_all add: stats_eval)
  done

lemma ex_top_reachable: "reachable ex_top"
  using ex_top_eval(3) reach_reset [OF ex_rng_valid(3)] by blast

lemma ex_pair_reachable: "reachable ex_pair"
  using ex_pair_eval(5) reach_reset [OF ex_rng_valid(2)] by blast

lemma ex_pair_swapped_reachable: "reachable ex_pair_swapped"
  unfolding ex_pair_swapped_def
  by (rule reach_step [OF ex_pair_reachable ex_rng_valid(2), of "[7, 1]"
      "fst (step ex_pair ex_rng_half [7, 1])" _
      "snd (snd (step ex_pair ex_rng_half [7, 1]))"]) simp

lemma reachable_slot:
  assumes "reachable s" and "index < k s"
  shows "index < length (process_table s)" and "index < length (swapped_processes s)"
    and "slot_inv (process_table s ! index) (swapped_processes s ! index)"
  using reachable_inv [OF assms(1)] assms(2) by (simp_all add: env_inv_def)

section \<open>The action handlers: swap-in, renice-increase, kill\<close>

text \<open>
  C7. In a reachable state, renice-increase on a slot that is not Killed and whose priority
  is below 0.95 sets the priority to \<open>min (priority + 0.2) 1.0\<close> and leaves everything else
  as it was; its reward is \<open>+10\<close> if \<open>cpu > 0.5\<close>, else \<open>-8\<close> if the old priority is below
  0.2 and \<open>ram < 0.1\<close>, else 0 (the code tests the second condition with \<^verbatim>\<open>elif\<close>, so a
  slot that meets both gets \<open>+10\<close>). At or above 0.95 the handler returns \<open>-2\<close>, on a
  Killed slot \<open>-5\<close>, and the instance is unchanged in both cases.
\<close>

theorem handle_renice_increase_cases:
  assumes "reachable s" and "index < k s"
  shows
    "(state (process_table s ! index) \<noteq> 0 \<and> priority (process_table s ! index) < 0.95 \<longrightarrow>
        (\<exists>s'. handle_renice_increase s index =
           Inr (if cpu (process_table s ! index) > 0.5 then 10
                else if priority (process_table s ! index) < 0.2 \<and>
                        ram (process_table s ! index) < 0.1 then - 8
                else 0, s') \<and>
          process_table s' ! index = (process_table s ! index)
            \<lparr>priority := min (priority (process_table s ! index) + 0.2) 1.0\<rparr> \<and>
          (\<forall>j. j \<noteq> index \<longrightarrow> process_table s' ! j = process_table s ! j) \<and>
          swapped_processes s' = swapped_processes s \<and>
          system_stats s' = system_stats s)) \<and>
     (state (process_table s ! index) \<noteq> 0 \<and> priority (process_table s ! index) \<ge> 0.95 \<longrightarrow>
        handle_renice_increase s index = Inr (- 2, s)) \<and>
     (state (process_table s ! index) = 0 \<longrightarrow>
        handle_renice_increase s index = Inr (- 5, s))"
proof -
  let ?r = "process_table s ! index"
  from reachable_slot [OF assms] have len: "index < length (process_table s)"
    and si: "slot_inv ?r (swapped_processes s ! index)" by simp_all
  from si have "0 \<le> priority ?r" by (simp add: slot_inv_def row_in_range_def)
  then have c: "clip (priority ?r + 0.2) 0.0 1.0 = min (priority ?r + 0.2) 1.0"
    by (simp add: clip_def)
  from len c show ?thesis
    by (simp add: handle_renice_increase_def Let_def)
qed

text \<open>The scenario of the specification (priority 0.97 gives \<open>-2\<close>, nothing changes), and
  an idle process of priority 0.1, which is raised to 0.3 for a reward of \<open>-8\<close>.\<close>

theorem handle_renice_increase_witness:
  "reachable ex_top \<and> (0::nat) < k ex_top \<and>
   priority (process_table ex_top ! 0) = 0.97 \<and> state (process_table ex_top ! 0) = 1 \<and>
   handle_renice_increase ex_top 0 = Inr (- 2, ex_top) \<and>
   reachable ex_idle \<and> (0::nat) < k ex_idle \<and>
   (\<exists>s'. handle_renice_increase ex_idle 0 = Inr (- 8, s') \<and>
      process_table s' = [\<lparr>ram = 0.01, cpu = 0, priority = 0.3, state = 1\<rparr>])"
proof -
  have a: "(0::nat) < k ex_top" and b: "(0::nat) < k ex_idle"
    by (simp_all add: ex_top_eval ex_idle_eval)
  from handle_renice_increase_cases [OF ex_top_reachable a]
  have "handle_renice_increase ex_top 0 = Inr (- 2, ex_top)"
    by (simp add: ex_top_eval)
  moreover from handle_renice_increase_cases [OF ex_idle_reachable b]
  obtain s' where "handle_renice_increase ex_idle 0 = Inr (- 8, s')"
    and "process_table s' ! 0 = \<lparr>ram = 0.01, cpu = 0, priority = 0.3, state = 1\<rparr>"
    by (auto simp: ex_idle_eval)
  moreover from this have "process_table s' = [\<lparr>ram = 0.01, cpu = 0, priority = 0.3, state = 1\<rparr>]"
    by (auto simp: handle_renice_increase_def Let_def ex_idle_eval split: if_splits)
  ultimately show ?thesis
    using ex_top_reachable ex_idle_reachable a b by (auto simp: ex_top_eval)
qed

text \<open>
  Swap-in where a stored state code equals its literal (the comparison of NumPy 2).
  In a reachable state, swap-in on a Swapped slot whose backed-up RAM added to the
  RAM usage of \<open>system_stats\<close> (which no handler writes, so it is the value at the start
  of the step) exceeds 1.0 returns \<open>-10\<close> and leaves the instance as it was: the row is
  still \<open>(0, 0, priority, 0.3)\<close> and the backup is still there. Otherwise the row becomes
  the backed-up RAM, CPU and priority with state 1.0, the backup is cleared, no other slot
  changes, and the reward is five times the backed-up priority, less 15 if the predicted
  usage is at least 0.8. On a slot that is not Swapped the handler returns \<open>-2\<close> and
  changes nothing.
\<close>

lemma handle_swap_in_cases:
  assumes "reachable s" and "index < k s"
  shows
    "(state (process_table s ! index) = 0.3 \<and>
      ram_usage (system_stats s) + ram (swapped_processes s ! index) > 1.0 \<longrightarrow>
        handle_swap_in s index = Inr (- 10, s) \<and>
        process_table s ! index =
          \<lparr>ram = 0, cpu = 0, priority = priority (process_table s ! index), state = 0.3\<rparr> \<and>
        swapped_processes s ! index \<noteq> zero_row) \<and>
     (state (process_table s ! index) = 0.3 \<and>
      \<not> ram_usage (system_stats s) + ram (swapped_processes s ! index) > 1.0 \<longrightarrow>
        (\<exists>s'. handle_swap_in s index =
           Inr (priority (swapped_processes s ! index) * 5
                - (if ram_usage (system_stats s) + ram (swapped_processes s ! index) \<ge> 0.8
                   then 15 else 0), s') \<and>
          process_table s' ! index =
            \<lparr>ram = ram (swapped_processes s ! index), cpu = cpu (swapped_processes s ! index),
             priority = priority (swapped_processes s ! index), state = 1.0\<rparr> \<and>
          swapped_processes s' ! index = zero_row \<and>
          (\<forall>j. j \<noteq> index \<longrightarrow> process_table s' ! j = process_table s ! j \<and>
                swapped_processes s' ! j = swapped_processes s ! j) \<and>
          system_stats s' = system_stats s)) \<and>
     (state (process_table s ! index) \<noteq> 0.3 \<longrightarrow> handle_swap_in s index = Inr (- 2, s))"
proof -
  let ?r = "process_table s ! index"
  from reachable_slot [OF assms] have len: "index < length (process_table s)"
    "index < length (swapped_processes s)"
    and si: "slot_inv ?r (swapped_processes s ! index)" by simp_all
  have "state ?r = 0.3 \<Longrightarrow>
      ?r = \<lparr>ram = 0, cpu = 0, priority = priority ?r, state = 0.3\<rparr> \<and>
      swapped_processes s ! index \<noteq> zero_row"
    using si by (auto simp: slot_inv_def)
  with len show ?thesis
    by (simp add: handle_swap_in_def Let_def)
qed

text \<open>With the heavy process in RAM the usage is 0.6 and the backup holds 0.7: the
  swap-in is refused. The lone idle process comes back for a reward of 0.5.\<close>

lemma handle_swap_in_witness:
  "reachable ex_pair_swapped \<and> (1::nat) < k ex_pair_swapped \<and>
   state (process_table ex_pair_swapped ! 1) = 0.3 \<and>
   ram_usage (system_stats ex_pair_swapped) + ram (swapped_processes ex_pair_swapped ! 1) = 1.3 \<and>
   handle_swap_in ex_pair_swapped 1 = Inr (- 10, ex_pair_swapped) \<and>
   handle_swap_in ex_pair_swapped 0 = Inr (- 2, ex_pair_swapped) \<and>
   reachable ex_swapped \<and> (0::nat) < k ex_swapped \<and>
   (\<exists>s'. handle_swap_in ex_swapped 0 = Inr (0.5, s') \<and>
      process_table s' ! 0 = \<lparr>ram = 0.01, cpu = 0, priority = 0.1, state = 1\<rparr> \<and>
      swapped_processes s' ! 0 = zero_row)"
proof -
  have a: "(1::nat) < k ex_pair_swapped" and a0: "(0::nat) < k ex_pair_swapped"
    and b: "(0::nat) < k ex_swapped"
    by (simp_all add: ex_pair_swapped_eval ex_swapped_eval)
  from handle_swap_in_cases [OF ex_pair_swapped_reachable a]
  have "handle_swap_in ex_pair_swapped 1 = Inr (- 10, ex_pair_swapped)"
    by (simp add: ex_pair_swapped_eval)
  moreover from handle_swap_in_cases [OF ex_pair_swapped_reachable a0]
  have "handle_swap_in ex_pair_swapped 0 = Inr (- 2, ex_pair_swapped)"
    by (simp add: ex_pair_swapped_eval)
  moreover from handle_swap_in_cases [OF ex_swapped_reachable b]
  have "\<exists>s'. handle_swap_in ex_swapped 0 = Inr (0.5, s') \<and>
      process_table s' ! 0 = \<lparr>ram = 0.01, cpu = 0, priority = 0.1, state = 1\<rparr> \<and>
      swapped_processes s' ! 0 = zero_row"
    by (simp add: ex_swapped_eval) blast
  ultimately show ?thesis
    using ex_pair_swapped_reachable ex_swapped_reachable a b
    by (simp add: ex_pair_swapped_eval)
qed

text \<open>
  C10. In a reachable state, killing a Swapped slot returns \<open>-2\<close> whatever its backup
  holds: the reward is computed from the row of the table, whose RAM is 0. The kill zeroes
  the row and discards the backup (which was there), and touches no other slot.
\<close>

theorem handle_kill_swapped:
  assumes "reachable s" and "index < k s" and "state (process_table s ! index) = 0.3"
  shows "\<exists>s'. handle_kill s index = Inr (- 2, s') \<and>
           process_table s' ! index = zero_row \<and>
           swapped_processes s' ! index = zero_row \<and>
           swapped_processes s ! index \<noteq> zero_row \<and>
           (\<forall>j. j \<noteq> index \<longrightarrow> process_table s' ! j = process_table s ! j \<and>
                 swapped_processes s' ! j = swapped_processes s ! j)"
proof -
  let ?r = "process_table s ! index"
  from reachable_slot [OF assms(1,2)] have len: "index < length (process_table s)"
    "index < length (swapped_processes s)"
    and si: "slot_inv ?r (swapped_processes s ! index)" by simp_all
  from si assms(3) have "ram ?r = 0" and "swapped_processes s ! index \<noteq> zero_row"
    by (auto simp: slot_inv_def)
  with len assms(3) show ?thesis
    by (simp add: handle_kill_def Let_def)
qed

text \<open>The swapped-out leaky process (RAM 0.7, priority 0.1, CPU 0.025 in its backup)
  would be the ideal kill were it in RAM; killed while Swapped it gives \<open>-2\<close>.\<close>

theorem handle_kill_swapped_witness:
  "reachable ex_pair_swapped \<and> (1::nat) < k ex_pair_swapped \<and>
   state (process_table ex_pair_swapped ! 1) = 0.3 \<and>
   swapped_processes ex_pair_swapped ! 1 =
     \<lparr>ram = 0.7, cpu = 0.025, priority = 0.1, state = 1\<rparr> \<and>
   (\<exists>s'. handle_kill ex_pair_swapped 1 = Inr (- 2, s') \<and>
      process_table s' ! 1 = zero_row \<and> swapped_processes s' ! 1 = zero_row)"
proof -
  have a: "(1::nat) < k ex_pair_swapped"
    and b: "state (process_table ex_pair_swapped ! 1) = 0.3"
    by (simp_all add: ex_pair_swapped_eval)
  from handle_kill_swapped [OF ex_pair_swapped_reachable a b]
  show ?thesis
    using ex_pair_swapped_reachable a by (auto simp: ex_pair_swapped_eval)
qed

section \<open>step returns\<close>

lemma handlers_return:
  assumes "h \<in> set handlers" and "i < length (process_table s)"
  shows "\<exists>x s'. h s i = Inr (x, s')"
  using assms
  by (auto simp: handlers_def handle_kill_def handle_swap_out_def handle_swap_in_def
      handle_suspend_def handle_resume_def handle_renice_increase_def
      handle_renice_decrease_def handle_noop_def Let_def)

lemma py_index_handlers:
  assumes "0 \<le> c" and "c \<le> 7"
  shows "\<exists>h. py_index handlers c = Inr h \<and> h \<in> set handlers"
proof -
  have l: "length handlers = 8" by (simp add: handlers_def)
  with assms have "nat c < length handlers" by simp
  then have "handlers ! nat c \<in> set handlers" by (rule nth_mem)
  moreover from assms l have "py_index handlers c = Inr (handlers ! nat c)"
    by (simp add: py_index_def Let_def)
  ultimately show ?thesis by simp
qed

lemma py_index_action:
  assumes "i < length action"
  shows "py_index action (int i) = Inr (action ! i)"
  using assms by (simp add: py_index_def Let_def)

lemma handler_loop_returns:
  assumes "\<forall>i\<in>set is. i < length (process_table s) \<and> i < length action"
    and "\<forall>c\<in>set action. 0 \<le> c \<and> c \<le> 7"
  shows "\<exists>rw' s'. handler_loop s action is rw = (Inr rw', s')"
  using assms(1)
proof (induction "is" arbitrary: s rw)
  case Nil
  then show ?case by simp
next
  case (Cons i "is")
  from Cons.prems have i: "i < length (process_table s)" "i < length action" by simp_all
  from i(2) assms(2) have "0 \<le> action ! i \<and> action ! i \<le> 7" by simp
  then obtain h where h: "py_index handlers (action ! i) = Inr h" "h \<in> set handlers"
    using py_index_handlers by blast
  from handlers_return [OF h(2) i(1)] obtain x s1 where hs: "h s i = Inr (x, s1)" by blast
  from handlers_frame [OF h(2) hs] Cons.prems
  have "\<forall>j\<in>set is. j < length (process_table s1) \<and> j < length action" by simp
  from Cons.IH [OF this, of "rw + x"] show ?case
    by (simp add: py_index_action [OF i(2)] h(1) hs)
qed

lemma step_returns:
  assumes "env_inv s" and "length action = k s" and "\<forall>c\<in>set action. 0 \<le> c \<and> c \<le> 7"
  shows "\<exists>res s' g'. step s g action = (Inr res, s', g')"
proof -
  let ?s1 = "s\<lparr>current_step := current_step s + 1\<rparr>"
  from assms(1) have i1: "env_inv ?s1" by (simp add: env_inv_def)
  from assms(1,2) have "\<forall>i\<in>set [0..<k ?s1]. i < length (process_table ?s1) \<and> i < length action"
    by (simp add: env_inv_def)
  from handler_loop_returns [OF this assms(3)]
  obtain rw s2 where hl: "handler_loop ?s1 action [0..<k ?s1] 0 = (Inr rw, s2)" by blast
  from handler_loop_inv [OF i1 hl] have "env_inv s2" .
  then have "\<forall>i\<in>set [0..<k s2]. i < length (process_table s2)" by (simp add: env_inv_def)
  then have "fst (apply_process_dynamics s2 g) = Inr ()"
    unfolding apply_process_dynamics_def by (rule dynamics_loop_returns)
  then obtain s3 g3 where "apply_process_dynamics s2 g = (Inr (), s3, g3)"
    by (cases "apply_process_dynamics s2 g") auto
  with hl show ?thesis
    by (simp add: step_def Let_def split_def)
qed

text \<open>
  Where a stored state code equals its literal (the comparison of NumPy 2): in a
  reachable state, for an action vector of length \<open>k\<close> whose codes are all in
  \<open>[0, 7]\<close> and any state of the generator, \<^verbatim>\<open>step\<close> returns: no branch of the model
  that stands for a raised exception is taken. An action that its slot's state does not
  admit (kill on a Killed slot, swap-out on a Swapped or Killed slot, swap-in on a slot
  that is not Swapped, suspend on a Suspended, Swapped or Killed slot, resume on a slot
  that is not Suspended, renice on a Killed slot) returns a negative reward and leaves the
  instance as it was.
\<close>

lemma step_total:
  assumes "reachable s" and "length action = k s" and "\<forall>c\<in>set action. 0 \<le> c \<and> c \<le> 7"
  shows "(\<exists>res s' g'. step s g action = (Inr res, s', g')) \<and>
    (\<forall>index<k s.
       (state (process_table s ! index) = 0 \<longrightarrow> handle_kill s index = Inr (- 1, s)) \<and>
       (state (process_table s ! index) = 0.3 \<longrightarrow> handle_swap_out s index = Inr (- 2, s)) \<and>
       (state (process_table s ! index) = 0 \<longrightarrow> handle_swap_out s index = Inr (- 5, s)) \<and>
       (state (process_table s ! index) \<noteq> 0.3 \<longrightarrow> handle_swap_in s index = Inr (- 2, s)) \<and>
       (state (process_table s ! index) = 0.6 \<longrightarrow> handle_suspend s index = Inr (- 2, s)) \<and>
       (state (process_table s ! index) = 0.3 \<longrightarrow> handle_suspend s index = Inr (- 3, s)) \<and>
       (state (process_table s ! index) = 0 \<longrightarrow> handle_suspend s index = Inr (- 5, s)) \<and>
       (state (process_table s ! index) \<noteq> 0.6 \<longrightarrow> handle_resume s index = Inr (- 2, s)) \<and>
       (state (process_table s ! index) = 0 \<longrightarrow>
          handle_renice_increase s index = Inr (- 5, s) \<and>
          handle_renice_decrease s index = Inr (- 5, s)))"
proof -
  from assms(1) have inv: "env_inv s" by (rule reachable_inv)
  from step_returns [OF inv assms(2,3)]
  have "\<exists>res s' g'. step s g action = (Inr res, s', g')" .
  moreover from inv have "length (process_table s) = k s"
    by (simp add: env_inv_def)
  ultimately show ?thesis
    by (simp add: handle_kill_def handle_swap_out_def handle_swap_in_def
        handle_suspend_def handle_resume_def handle_renice_increase_def
        handle_renice_decrease_def Let_def)
qed

text \<open>Swap-in on the Running slot and resume on the Swapped slot of \<open>ex_pair_swapped\<close>:
  the step returns, and each handler gives its penalty and changes nothing.\<close>

lemma step_total_witness:
  "reachable ex_pair_swapped \<and> length [2, 4 :: int] = k ex_pair_swapped \<and>
   (\<exists>res s' g'. step ex_pair_swapped ex_rng_half [2, 4] = (Inr res, s', g')) \<and>
   state (process_table ex_pair_swapped ! 0) = 1 \<and>
   handle_swap_in ex_pair_swapped 0 = Inr (- 2, ex_pair_swapped) \<and>
   state (process_table ex_pair_swapped ! 1) = 0.3 \<and>
   handle_resume ex_pair_swapped 1 = Inr (- 2, ex_pair_swapped) \<and>
   handle_suspend ex_pair_swapped 1 = Inr (- 3, ex_pair_swapped)"
proof -
  have a: "length [2, 4 :: int] = k ex_pair_swapped"
    and b: "\<forall>c\<in>set [2, 4 :: int]. 0 \<le> c \<and> c \<le> 7"
    by (simp_all add: ex_pair_swapped_eval)
  from step_total [OF ex_pair_swapped_reachable a b, of ex_rng_half]
  have r: "\<exists>res s' g'. step ex_pair_swapped ex_rng_half [2, 4] = (Inr res, s', g')"
    and p: "\<forall>index<k ex_pair_swapped.
      (state (process_table ex_pair_swapped ! index) \<noteq> 0.3 \<longrightarrow>
         handle_swap_in ex_pair_swapped index = Inr (- 2, ex_pair_swapped)) \<and>
      (state (process_table ex_pair_swapped ! index) = 0.3 \<longrightarrow>
         handle_suspend ex_pair_swapped index = Inr (- 3, ex_pair_swapped)) \<and>
      (state (process_table ex_pair_swapped ! index) \<noteq> 0.6 \<longrightarrow>
         handle_resume ex_pair_swapped index = Inr (- 2, ex_pair_swapped))"
    by simp_all
  from p [rule_format, of 0] p [rule_format, of 1]
  have "handle_swap_in ex_pair_swapped 0 = Inr (- 2, ex_pair_swapped)"
    and "handle_resume ex_pair_swapped 1 = Inr (- 2, ex_pair_swapped)"
    and "handle_suspend ex_pair_swapped 1 = Inr (- 3, ex_pair_swapped)"
    by (simp_all add: ex_pair_swapped_eval)
  with r ex_pair_swapped_reachable show ?thesis
    by (simp add: ex_pair_swapped_eval)
qed

section \<open>The result of step; the all-no-op step\<close>

lemma zero_row_sel:
  "ram zero_row = 0" "cpu zero_row = 0" "priority zero_row = 0" "state zero_row = 0"
  by (simp_all add: zero_row_def)

lemma step_shape:
  assumes "step s g action = (Inr res, s', g')"
  shows "\<exists>s3 g3 rw. s' = update_system_stats (fst (spawn_new_process s3 g3)) \<and>
      g' = snd (spawn_new_process s3 g3) \<and>
      res = \<lparr>res_obs = get_obs s', res_reward = rw + calculate_global_reward s',
              res_terminated = (ram_usage (system_stats s') \<ge> 1.0), res_truncated = False,
              res_info = \<lparr>info_step = current_step s',
                info_ram_usage = ram_usage (system_stats s'),
                info_cpu_usage = cpu_usage (system_stats s'),
                info_page_faults = page_faults (system_stats s'),
                info_swap_usage = swap_usage (system_stats s'),
                info_power = power_stat (system_stats s')\<rparr>\<rparr>"
proof -
  let ?s1 = "s\<lparr>current_step := current_step s + 1\<rparr>"
  obtain o2 s2 where hl: "handler_loop ?s1 action [0..<k ?s1] 0 = (o2, s2)"
    by (cases "handler_loop ?s1 action [0..<k ?s1] 0")
  obtain o3 s3 g3 where dl: "apply_process_dynamics s2 g = (o3, s3, g3)"
    by (cases "apply_process_dynamics s2 g")
  show ?thesis
  proof (cases o2)
    case (Inl e)
    with assms hl show ?thesis by (simp add: step_def)
  next
    case (Inr rw)
    show ?thesis
    proof (cases o3)
      case (Inl e)
      with assms hl dl Inr show ?thesis by (simp add: step_def)
    next
      case r3: (Inr u)
      obtain s4 g4 where sp: "spawn_new_process s3 g3 = (s4, g4)"
        by (cases "spawn_new_process s3 g3")
      from assms hl dl Inr r3 sp show ?thesis
        unfolding step_def Let_def
        by (intro exI [of _ s3] exI [of _ g3] exI [of _ rw]) auto
    qed
  qed
qed

lemma clip_ge_one: "(clip x 0 1 \<ge> 1) = (x \<ge> 1)"
  by (auto simp: clip_def)

lemma update_system_stats_ram_usage:
  "ram_usage (system_stats (update_system_stats s)) =
     clip (sum_list (map ram (process_table s)) + 0.10) 0 1"
  by (simp add: update_system_stats_def Let_def)

text \<open>
  C6. Whenever \<^verbatim>\<open>step\<close> returns, \<open>terminated\<close> is true exactly when the RAM usage
  recomputed at the end of the step, \<open>clip (\<Sum>ram + 0.10) 0 1\<close> over the table the step
  leaves, is at least 1.0, which is when the rows' RAM sums to at least 0.9; that usage is
  what the observation and \<open>info\<close> report, and \<open>truncated\<close> is false.
\<close>

theorem step_terminated_iff:
  assumes "step s g action = (Inr res, s', g')"
  shows "res_terminated res =
           (clip (sum_list (map ram (process_table s')) + 0.10) 0 1 \<ge> 1.0) \<and>
         res_terminated res = (sum_list (map ram (process_table s')) \<ge> 0.9) \<and>
         ram_usage (system_stats s') = clip (sum_list (map ram (process_table s')) + 0.10) 0 1 \<and>
         res_obs res = get_obs s' \<and>
         info_ram_usage (res_info res) = ram_usage (system_stats s') \<and>
         res_truncated res = False"
proof -
  from step_shape [OF assms] obtain s3 g3 rw
    where s': "s' = update_system_stats (fst (spawn_new_process s3 g3))"
      and res: "res = \<lparr>res_obs = get_obs s', res_reward = rw + calculate_global_reward s',
              res_terminated = (ram_usage (system_stats s') \<ge> 1.0), res_truncated = False,
              res_info = \<lparr>info_step = current_step s',
                info_ram_usage = ram_usage (system_stats s'),
                info_cpu_usage = cpu_usage (system_stats s'),
                info_page_faults = page_faults (system_stats s'),
                info_swap_usage = swap_usage (system_stats s'),
                info_power = power_stat (system_stats s')\<rparr>\<rparr>"
    by blast
  have u: "ram_usage (system_stats s') = clip (sum_list (map ram (process_table s')) + 0.10) 0 1"
    by (subst (1 2) s') (simp add: update_system_stats_ram_usage update_system_stats_frame)
  have t: "res_terminated res = (ram_usage (system_stats s') \<ge> 1)"
    and o: "res_obs res = get_obs s'"
    and i: "info_ram_usage (res_info res) = ram_usage (system_stats s')"
    and f: "res_truncated res = False"
    by (simp_all add: res)
  from t have t1: "res_terminated res =
      (clip (sum_list (map ram (process_table s')) + 0.10) 0 1 \<ge> 1.0)"
    by (simp add: u)
  from t1 have t2: "res_terminated res = (sum_list (map ram (process_table s')) \<ge> 0.9)"
    by (auto simp: clip_ge_one)
  from t1 t2 u o i f show ?thesis by blast
qed

text \<open>A no-op step on the heavy and the leaky process: the leak takes the sum of RAM to
  1.235 and the step is terminal. A no-op step on the idle process is not.\<close>

theorem step_terminated_witness:
  "(\<exists>res s' g'. step ex_pair ex_rng_half [7, 7] = (Inr res, s', g') \<and>
      sum_list (map ram (process_table s')) = 1.235 \<and> res_terminated res) \<and>
   (\<exists>res s' g'. step ex_idle ex_rng_zero [7] = (Inr res, s', g') \<and>
      sum_list (map ram (process_table s')) = 0.01 \<and> \<not> res_terminated res)"
proof -
  have i1: "env_inv ex_pair" and i2: "env_inv ex_idle"
    using ex_pair_reachable ex_idle_reachable by (simp_all add: reachable_inv)
  from step_returns [OF i1, of "[7, 7]" ex_rng_half]
  obtain res s' g' where a: "step ex_pair ex_rng_half [7, 7] = (Inr res, s', g')"
    by (auto simp: ex_pair_eval)
  then have "s' = fst (snd (step ex_pair ex_rng_half [7, 7]))" by simp
  then have "process_table s' = [\<lparr>ram = 0.5, cpu = 0.75, priority = 0.85, state = 1\<rparr>,
     \<lparr>ram = 0.735, cpu = 0.025, priority = 0.1, state = 1\<rparr>]"
    by (simp add: ex_pair_eval ex_rng_half_def step_eval handle_noop_def
          update_system_stats_frame)
       (simp add: clip_def)
  then have sa: "sum_list (map ram (process_table s')) = 1.235" by simp
  from step_terminated_iff [OF a] sa have ta: "res_terminated res" by (simp add: clip_def)
  from step_returns [OF i2, of "[7]" ex_rng_zero]
  obtain res2 s2 g2 where b: "step ex_idle ex_rng_zero [7] = (Inr res2, s2, g2)"
    by (auto simp: ex_idle_eval)
  then have "s2 = fst (snd (step ex_idle ex_rng_zero [7]))" by simp
  then have "process_table s2 = [\<lparr>ram = 0.01, cpu = 0, priority = 0.1, state = 1\<rparr>]"
    by (simp add: ex_idle_eval ex_rng_zero_def step_eval handle_noop_def
          update_system_stats_frame zero_row_sel)
  then have sb: "sum_list (map ram (process_table s2)) = 0.01" by simp
  from step_terminated_iff [OF b] sb have tb: "\<not> res_terminated res2" by (simp add: clip_def)
  from a sa ta b sb tb show ?thesis by blast
qed

lemma handler_loop_noop:
  assumes "\<forall>i\<in>set is. i < n"
  shows "handler_loop s (replicate n 7) is rw = (Inr rw, s)"
  using assms
proof (induction "is" arbitrary: rw)
  case Nil
  then show ?case by simp
next
  case (Cons i "is")
  then have "py_index (replicate n (7::int)) (int i) = Inr 7"
    by (simp add: py_index_def Let_def)
  moreover have "py_index handlers 7 = Inr handle_noop"
    by (simp add: py_index_def handlers_def Let_def)
  ultimately show ?case using Cons by (simp add: handle_noop_def)
qed

text \<open>
  C9. With the action vector all 7, every slot's handler is the no-op, each returns 0 and
  leaves the instance as it was, so the loop over the slots returns the local reward 0
  and the instance unchanged. The step is then the dynamics pass, the spawn pass and the
  telemetry on that instance: when the dynamics pass returns, the step returns the
  instance those passes produce, its reward is the global reward alone, and the swap
  backups are those before the step.
\<close>

theorem step_all_noop:
  "handler_loop s (replicate (k s) 7) [0..<k s] 0 = (Inr 0, s) \<and>
   (\<forall>i<k s. \<exists>h. py_index handlers (replicate (k s) 7 ! i) = Inr h \<and> h s i = Inr (0, s)) \<and>
   (\<forall>u s3 g3.
      apply_process_dynamics (s\<lparr>current_step := current_step s + 1\<rparr>) g = (Inr u, s3, g3) \<longrightarrow>
      (\<exists>res. step s g (replicate (k s) 7) =
         (Inr res, update_system_stats (fst (spawn_new_process s3 g3)),
          snd (spawn_new_process s3 g3)) \<and>
        res_reward res =
          calculate_global_reward (update_system_stats (fst (spawn_new_process s3 g3))) \<and>
        swapped_processes (update_system_stats (fst (spawn_new_process s3 g3))) =
          swapped_processes s))"
proof -
  let ?s1 = "s\<lparr>current_step := current_step s + 1\<rparr>"
  have a: "handler_loop s' (replicate (k s) 7) [0..<k s] 0 = (Inr 0, s')" for s'
    by (rule handler_loop_noop) simp
  have b: "py_index handlers 7 = Inr handle_noop"
    by (simp add: py_index_def handlers_def Let_def)
  have c: "\<exists>res. step s g (replicate (k s) 7) =
         (Inr res, update_system_stats (fst (spawn_new_process s3 g3)),
          snd (spawn_new_process s3 g3)) \<and>
        res_reward res =
          calculate_global_reward (update_system_stats (fst (spawn_new_process s3 g3))) \<and>
        swapped_processes (update_system_stats (fst (spawn_new_process s3 g3))) =
          swapped_processes s"
    if d: "apply_process_dynamics ?s1 g = (Inr u, s3, g3)" for u s3 g3
  proof -
    from d have "swapped_processes s3 = swapped_processes ?s1"
      unfolding apply_process_dynamics_def by (simp add: dynamics_loop_frame)
    then have "swapped_processes (update_system_stats (fst (spawn_new_process s3 g3))) =
        swapped_processes s"
      by (simp add: update_system_stats_frame spawn_new_process_def spawn_loop_frame)
    with d a [of ?s1] show ?thesis
      by (simp add: step_def Let_def split_def)
  qed
  from a [of s] b c show ?thesis
    by (simp add: handle_noop_def)
qed

text \<open>On \<open>ex_pair_swapped\<close> with every variate 1/2 the passes change no row either. On
  \<open>ex_idle\<close> with every variate 0 the dynamics and spawn passes still run: they draw
  eight variates.\<close>

theorem step_all_noop_witness:
  "handler_loop ex_pair_swapped (replicate (k ex_pair_swapped) 7) [0..<k ex_pair_swapped] 0 =
     (Inr 0, ex_pair_swapped) \<and>
   (\<exists>res s' g'. step ex_pair_swapped ex_rng_half (replicate (k ex_pair_swapped) 7) =
      (Inr res, s', g') \<and>
      swapped_processes s' = swapped_processes ex_pair_swapped \<and>
      process_table s' = process_table ex_pair_swapped) \<and>
   (\<exists>res s' g'. step ex_idle ex_rng_zero (replicate (k ex_idle) 7) = (Inr res, s', g') \<and>
      cursor g' = 8)"
proof -
  let ?s1 = "ex_pair_swapped\<lparr>current_step := current_step ex_pair_swapped + 1\<rparr>"
  let ?d = "apply_process_dynamics ?s1 ex_rng_half"
  let ?t1 = "ex_idle\<lparr>current_step := current_step ex_idle + 1\<rparr>"
  let ?e = "apply_process_dynamics ?t1 ex_rng_zero"
  have d: "?d = (Inr (), fst (snd ?d), snd (snd ?d))"
    and t: "process_table (fst (snd ?d)) = process_table ex_pair_swapped"
      "killed_indices (process_table (fst (snd ?d))) = []"
    by (simp_all add: apply_process_dynamics_def ex_pair_swapped_eval ex_rng_half_def
          dynamics_row_def uniform_def random_sample_def Let_def numeral_2_eq_2
          killed_indices_def)
       (simp_all add: clip_def)
  have e: "?e = (Inr (), fst (snd ?e), snd (snd ?e))"
    and c: "cursor (snd (spawn_new_process (fst (snd ?e)) (snd (snd ?e)))) = 8"
    by (simp_all add: apply_process_dynamics_def ex_idle_eval ex_rng_zero_def
          dynamics_row_def uniform_def random_sample_def Let_def spawn_new_process_def
          killed_indices_def spawn_row_def choice_def sample_process_def zero_row_sel)
  note n1 = step_all_noop [of ex_pair_swapped ex_rng_half]
  note n2 = step_all_noop [of ex_idle ex_rng_zero]
  from n1 have h: "handler_loop ex_pair_swapped (replicate (k ex_pair_swapped) 7)
           [0..<k ex_pair_swapped] 0 = (Inr 0, ex_pair_swapped)"
    by (rule conjunct1)
  from n1 [THEN conjunct2, THEN conjunct2, rule_format, OF d]
  obtain res where r: "step ex_pair_swapped ex_rng_half (replicate (k ex_pair_swapped) 7) =
      (Inr res, update_system_stats (fst (spawn_new_process (fst (snd ?d)) (snd (snd ?d)))),
       snd (spawn_new_process (fst (snd ?d)) (snd (snd ?d))))"
    and b: "swapped_processes
        (update_system_stats (fst (spawn_new_process (fst (snd ?d)) (snd (snd ?d))))) =
      swapped_processes ex_pair_swapped"
    by blast
  have p: "process_table
        (update_system_stats (fst (spawn_new_process (fst (snd ?d)) (snd (snd ?d))))) =
      process_table ex_pair_swapped"
    using t by (simp add: update_system_stats_frame spawn_new_process_def)
  from n2 [THEN conjunct2, THEN conjunct2, rule_format, OF e]
  obtain res2 where r2: "step ex_idle ex_rng_zero (replicate (k ex_idle) 7) =
      (Inr res2, update_system_stats (fst (spawn_new_process (fst (snd ?e)) (snd (snd ?e)))),
       snd (spawn_new_process (fst (snd ?e)) (snd (snd ?e))))"
    by blast
  from h r b p r2 c show ?thesis by blast
qed

section \<open>Fields stay in range\<close>

lemma env_inv_rows:
  assumes "env_inv s"
  shows "\<forall>r\<in>set (process_table s). row_in_range r"
proof
  fix r
  assume "r \<in> set (process_table s)"
  then obtain i where "i < length (process_table s)" and "r = process_table s ! i"
    by (auto simp: in_set_conv_nth)
  with assms show "row_in_range r"
    by (simp add: env_inv_def slot_inv_def)
qed

lemma ex_suspended_eval:
  "k ex_suspended = 1"
  "process_table ex_suspended = [\<lparr>ram = 0.005, cpu = 0, priority = 0.1, state = 0.6\<rparr>]"
  "swapped_processes ex_suspended = [zero_row]"
  "ram_usage (system_stats ex_suspended) = 0.105"
  by (simp_all add: ex_suspended_def ex_idle_eval ex_rng_zero_def step_eval handle_suspend_def
       update_system_stats_frame)
     (simp_all add: stats_eval)

lemma ex_suspended_reachable: "reachable ex_suspended"
  unfolding ex_suspended_def
  by (rule reach_step [OF ex_idle_reachable ex_rng_valid(1), of "[3]"
      "fst (step ex_idle ex_rng_zero [3])" _ "snd (snd (step ex_idle ex_rng_zero [3]))"]) simp

text \<open>
  C5. In every reachable state each row of the table has RAM, CPU and priority in
  \<open>[0, 1]\<close> and a state among 1.0, 0.6, 0.3 and 0. The same holds of the table every
  handler leaves when called on a reachable state, in particular resume (which doubles
  the RAM only when the doubled value added to the RAM usage is at most 1) and the two
  renice handlers (which clip the priority).
\<close>

theorem fields_in_range:
  assumes "reachable s"
  shows "(\<forall>r\<in>set (process_table s). row_in_range r) \<and>
    (\<forall>index x s'. handle_resume s index = Inr (x, s') \<longrightarrow>
       (\<forall>r\<in>set (process_table s'). row_in_range r)) \<and>
    (\<forall>index x s'. handle_renice_increase s index = Inr (x, s') \<longrightarrow>
       (\<forall>r\<in>set (process_table s'). row_in_range r)) \<and>
    (\<forall>index x s'. handle_renice_decrease s index = Inr (x, s') \<longrightarrow>
       (\<forall>r\<in>set (process_table s'). row_in_range r)) \<and>
    (\<forall>h\<in>set handlers. \<forall>index x s'. h s index = Inr (x, s') \<longrightarrow>
       (\<forall>r\<in>set (process_table s'). row_in_range r))"
proof -
  from assms have inv: "env_inv s" by (rule reachable_inv)
  have "\<forall>r\<in>set (process_table s'). row_in_range r"
    if "h \<in> set handlers" and "h s index = Inr (x, s')" for h index x s'
    using handlers_inv [OF that(1) inv that(2)] by (rule env_inv_rows)
  moreover have "handle_resume \<in> set handlers" "handle_renice_increase \<in> set handlers"
    "handle_renice_decrease \<in> set handlers"
    by (simp_all add: handlers_def)
  ultimately show ?thesis using env_inv_rows [OF inv] by blast
qed

text \<open>The suspended idle process holds RAM 0.005; resumed, it holds 0.01, runs at CPU 0.2,
  and its row is in range.\<close>

theorem fields_in_range_witness:
  "reachable ex_suspended \<and>
   process_table ex_suspended = [\<lparr>ram = 0.005, cpu = 0, priority = 0.1, state = 0.6\<rparr>] \<and>
   row_in_range (process_table ex_suspended ! 0) \<and>
   (\<exists>s'. handle_resume ex_suspended 0 = Inr (0.5, s') \<and>
      process_table s' = [\<lparr>ram = 0.01, cpu = 0.2, priority = 0.1, state = 1\<rparr>] \<and>
      row_in_range (process_table s' ! 0))"
proof -
  note n = fields_in_range [OF ex_suspended_reachable]
  from n have a: "\<forall>r\<in>set (process_table ex_suspended). row_in_range r"
    by (rule conjunct1)
  then have a': "row_in_range (process_table ex_suspended ! 0)"
    by (simp add: ex_suspended_eval)
  have r: "handle_resume ex_suspended 0 = Inr (0.5,
      ex_suspended\<lparr>process_table := [\<lparr>ram = 0.01, cpu = 0.2, priority = 0.1, state = 1\<rparr>]\<rparr>)"
    by (simp add: handle_resume_def ex_suspended_eval Let_def)
  from n [THEN conjunct2, THEN conjunct1, rule_format, OF r]
  have "row_in_range (process_table
      (ex_suspended\<lparr>process_table := [\<lparr>ram = 0.01, cpu = 0.2, priority = 0.1, state = 1\<rparr>]\<rparr>) ! 0)"
    by simp
  with r a' ex_suspended_reachable show ?thesis
    by (simp add: ex_suspended_eval)
qed

section \<open>The swap backups\<close>

lemma backup_inv_update_both:
  assumes "backup_inv s" and "(b' \<noteq> zero_row) = (state r' = 0.3)"
  shows "backup_inv (s\<lparr>process_table := (process_table s)[i := r'],
                       swapped_processes := (swapped_processes s)[i := b']\<rparr>)"
proof -
  have "((swapped_processes s)[i := b'] ! j \<noteq> zero_row) =
      (state ((process_table s)[i := r'] ! j) = 0.3)"
    if "j < k s" for j
  proof (cases "i = j")
    case True
    with that assms show ?thesis by (simp add: backup_inv_def)
  next
    case False
    with that assms show ?thesis by (simp add: backup_inv_def)
  qed
  with assms(1) show ?thesis by (simp add: backup_inv_def)
qed

lemma backup_inv_update_row:
  assumes "backup_inv s"
    and "i < k s \<Longrightarrow> (swapped_processes s ! i \<noteq> zero_row) = (state r' = 0.3)"
  shows "backup_inv (s\<lparr>process_table := (process_table s)[i := r']\<rparr>)"
proof -
  have "(swapped_processes s ! j \<noteq> zero_row) = (state ((process_table s)[i := r'] ! j) = 0.3)"
    if "j < k s" for j
  proof (cases "i = j")
    case True
    with that assms show ?thesis by (simp add: backup_inv_def)
  next
    case False
    with that assms show ?thesis by (simp add: backup_inv_def)
  qed
  with assms(1) show ?thesis by (simp add: backup_inv_def)
qed

lemma backup_inv_slot:
  "backup_inv s \<Longrightarrow> i < length (process_table s) \<Longrightarrow>
     (swapped_processes s ! i \<noteq> zero_row) = (state (process_table s ! i) = 0.3)"
  by (simp add: backup_inv_def)

lemma handlers_backup_inv:
  assumes "h \<in> set handlers" and "backup_inv s" and "h s i = Inr (x, s')"
  shows "backup_inv s'"
proof (cases "i < length (process_table s)")
  case False
  with assms show ?thesis
    by (auto simp: handlers_def handle_kill_def handle_swap_out_def handle_swap_in_def
        handle_suspend_def handle_resume_def handle_renice_increase_def
        handle_renice_decrease_def handle_noop_def)
next
  case True
  let ?r = "process_table s ! i" and ?b = "swapped_processes s ! i"
  from assms(2) True have bi: "(?b \<noteq> zero_row) = (state ?r = 0.3)"
    by (rule backup_inv_slot)
  from True assms(2) have ik: "i < k s" by (simp add: backup_inv_def)
  have nz: "r \<noteq> zero_row" if "state r \<noteq> 0" for r
    using that by (auto simp: zero_row_def)
  from assms(1) consider "h = handle_kill" | "h = handle_swap_out" | "h = handle_swap_in"
    | "h = handle_suspend" | "h = handle_resume" | "h = handle_renice_increase"
    | "h = handle_renice_decrease" | "h = handle_noop"
    by (auto simp: handlers_def)
  then show ?thesis
  proof cases
    case 1
    have "backup_inv (s\<lparr>process_table := (process_table s)[i := zero_row],
        swapped_processes := (swapped_processes s)[i := zero_row]\<rparr>)"
      by (rule backup_inv_update_both [OF assms(2)]) (simp add: zero_row_def)
    with 1 assms(2,3) True show ?thesis
      by (auto simp: handle_kill_def Let_def split: if_splits)
  next
    case 2
    have "backup_inv (s\<lparr>process_table := (process_table s)
          [i := \<lparr>ram = 0, cpu = 0, priority = priority ?r, state = 0.3\<rparr>],
        swapped_processes := (swapped_processes s)[i := ?r]\<rparr>)"
      if "state ?r \<noteq> 0"
      by (rule backup_inv_update_both [OF assms(2)]) (simp add: nz [OF that])
    then have "backup_inv (s\<lparr>swapped_processes := (swapped_processes s)[i := ?r],
        process_table := (process_table s)
          [i := \<lparr>ram = 0, cpu = 0, priority = priority ?r, state = 0.3\<rparr>]\<rparr>)"
      if "state ?r \<noteq> 0"
      using that by (simp add: backup_inv_def)
    with 2 assms(2,3) True show ?thesis
      by (auto simp: handle_swap_out_def Let_def split: if_splits)
  next
    case 3
    have "backup_inv (s\<lparr>process_table := (process_table s)
          [i := \<lparr>ram = ram ?b, cpu = cpu ?b, priority = priority ?b, state = 1.0\<rparr>],
        swapped_processes := (swapped_processes s)[i := zero_row]\<rparr>)"
      by (rule backup_inv_update_both [OF assms(2)]) simp
    with 3 assms(2,3) True show ?thesis
      by (auto simp: handle_swap_in_def Let_def split: if_splits)
  next
    case 4
    have "backup_inv (s\<lparr>process_table := (process_table s)
          [i := ?r\<lparr>state := 0.6, cpu := 0, ram := ram ?r * 0.5\<rparr>]\<rparr>)"
      if "state ?r \<noteq> 0.3"
      by (rule backup_inv_update_row [OF assms(2)]) (use bi that in simp)
    with 4 assms(2,3) True show ?thesis
      by (auto simp: handle_suspend_def Let_def split: if_splits)
  next
    case 5
    have "backup_inv (s\<lparr>process_table := (process_table s)
          [i := ?r\<lparr>state := 1.0, cpu := 0.2, ram := ram ?r * 2\<rparr>]\<rparr>)"
      if "state ?r = 0.6"
      by (rule backup_inv_update_row [OF assms(2)]) (use bi that in simp)
    with 5 assms(2,3) True show ?thesis
      by (auto simp: handle_resume_def Let_def split: if_splits)
  next
    case 6
    have "backup_inv (s\<lparr>process_table := (process_table s)
          [i := ?r\<lparr>priority := clip (priority ?r + 0.2) 0.0 1.0\<rparr>]\<rparr>)"
      by (rule backup_inv_update_row [OF assms(2)]) (use bi in simp)
    with 6 assms(2,3) True show ?thesis
      by (auto simp: handle_renice_increase_def Let_def split: if_splits)
  next
    case 7
    have "backup_inv (s\<lparr>process_table := (process_table s)
          [i := ?r\<lparr>priority := clip (priority ?r - 0.2) 0.0 1.0\<rparr>]\<rparr>)"
      by (rule backup_inv_update_row [OF assms(2)]) (use bi in simp)
    with 7 assms(2,3) True show ?thesis
      by (auto simp: handle_renice_decrease_def Let_def split: if_splits)
  next
    case 8
    with assms(2,3) show ?thesis by (simp add: handle_noop_def)
  qed
qed

lemma sample_process_state: "state (fst (sample_process r0 r1 c0 c1 p0 p1 g)) = 1"
  by (simp add: sample_process_def split_def Let_def)

lemma spawn_row_state: "state (fst (spawn_row g)) = 1"
  by (simp add: spawn_row_def split_def Let_def sample_process_state)

lemma dynamics_row_swapped: "(state (fst (dynamics_row r g)) = 0.3) = (state r = 0.3)"
  by (simp add: dynamics_row_def split_def Let_def zero_row_sel)

lemma dynamics_loop_backup_inv:
  "backup_inv s \<Longrightarrow> dynamics_loop s g is = (out, s', g') \<Longrightarrow> backup_inv s'"
proof (induction "is" arbitrary: s g)
  case Nil
  then show ?case by simp
next
  case (Cons i "is")
  show ?case
  proof (cases "length (process_table s) \<le> i")
    case True
    with Cons.prems show ?thesis by simp
  next
    case False
    let ?r = "fst (dynamics_row (process_table s ! i) g)"
    let ?s = "s\<lparr>process_table := (process_table s)[i := ?r]\<rparr>"
    from False Cons.prems(1) dynamics_row_swapped [of "process_table s ! i" g]
    have "(swapped_processes s ! i \<noteq> zero_row) = (state ?r = 0.3)"
      by (simp add: backup_inv_slot)
    then have "backup_inv ?s" by (intro backup_inv_update_row Cons.prems(1))
    moreover from Cons.prems(2) False
    have "dynamics_loop ?s (snd (dynamics_row (process_table s ! i) g)) is = (out, s', g')"
      by (simp add: split_def Let_def)
    ultimately show ?thesis by (rule Cons.IH)
  qed
qed

lemma spawn_loop_backup_inv:
  assumes "backup_inv s"
    and "\<forall>i\<in>set idxs. i < k s \<longrightarrow> swapped_processes s ! i = zero_row"
  shows "backup_inv (fst (spawn_loop s g idxs))"
  using assms
proof (induction idxs arbitrary: s g)
  case Nil
  then show ?case by simp
next
  case (Cons idx rest)
  let ?g1 = "snd (random_sample g)"
  show ?case
  proof (cases "fst (random_sample g) < 0.05")
    case False
    with Cons.IH [OF Cons.prems(1), of ?g1] Cons.prems(2) show ?thesis
      by (simp add: split_def Let_def)
  next
    case True
    let ?r = "fst (spawn_row ?g1)"
    let ?s = "s\<lparr>process_table := (process_table s)[idx := ?r]\<rparr>"
    have "(swapped_processes s ! idx \<noteq> zero_row) = (state ?r = 0.3)" if "idx < k s"
      using that Cons.prems(2) by (simp add: spawn_row_state)
    with Cons.prems(1) have "backup_inv ?s" by (intro backup_inv_update_row)
    moreover from Cons.prems(2)
    have "\<forall>i\<in>set rest. i < k ?s \<longrightarrow> swapped_processes ?s ! i = zero_row"
      by simp
    ultimately have "backup_inv (fst (spawn_loop ?s (snd (spawn_row ?g1)) rest))"
      by (intro Cons.IH)
    with True show ?thesis by (simp add: split_def Let_def)
  qed
qed

lemma spawn_new_process_backup_inv:
  assumes "backup_inv s"
  shows "backup_inv (fst (spawn_new_process s g))"
  unfolding spawn_new_process_def
proof (rule spawn_loop_backup_inv [OF assms], intro ballI impI)
  fix i
  assume "i \<in> set (killed_indices (process_table s))" and "i < k s"
  then have "state (process_table s ! i) = 0" by (simp add: killed_indices_def)
  with \<open>i < k s\<close> assms show "swapped_processes s ! i = zero_row"
    by (auto simp: backup_inv_def)
qed

lemma env_inv_backup_inv: "env_inv s \<Longrightarrow> backup_inv s"
  by (simp add: env_inv_def backup_inv_def slot_inv_def)

text \<open>
  Where a stored state code equals its literal (the comparison of NumPy 2): in every
  reachable state a slot's backup is a non-zero row exactly when the slot's
  state is 0.3 (Swapped). The invariant \<open>backup_inv\<close> (this, and both tables of \<open>k\<close>
  rows) is kept by each of the eight handlers on any slot, by the dynamics pass and by
  the spawn pass, from every instance in which it holds.
\<close>

lemma backup_iff_swapped:
  "(reachable s \<longrightarrow>
      (\<forall>i<k s. (swapped_processes s ! i \<noteq> zero_row) = (state (process_table s ! i) = 0.3)) \<and>
      backup_inv s) \<and>
   (backup_inv s \<longrightarrow>
      (\<forall>h\<in>set handlers. \<forall>index x s'. h s index = Inr (x, s') \<longrightarrow> backup_inv s') \<and>
      (\<forall>g out s' g'. apply_process_dynamics s g = (out, s', g') \<longrightarrow> backup_inv s') \<and>
      (\<forall>g. backup_inv (fst (spawn_new_process s g))))"
proof (intro conjI impI)
  assume "reachable s"
  then have "backup_inv s" by (intro env_inv_backup_inv reachable_inv)
  then show "backup_inv s"
    and "\<forall>i<k s. (swapped_processes s ! i \<noteq> zero_row) = (state (process_table s ! i) = 0.3)"
    by (simp_all add: backup_inv_def)
next
  assume b: "backup_inv s"
  from b show "\<forall>h\<in>set handlers. \<forall>index x s'. h s index = Inr (x, s') \<longrightarrow> backup_inv s'"
    by (blast intro: handlers_backup_inv)
  from b show "\<forall>g out s' g'. apply_process_dynamics s g = (out, s', g') \<longrightarrow> backup_inv s'"
    unfolding apply_process_dynamics_def by (blast intro: dynamics_loop_backup_inv)
  from b show "\<forall>g. backup_inv (fst (spawn_new_process s g))"
    by (simp add: spawn_new_process_backup_inv)
qed

text \<open>In \<open>ex_pair_swapped\<close> the Running slot has no backup and the Swapped slot has one;
  killing the Swapped slot keeps the invariant: the backup goes with the state.\<close>

lemma backup_iff_swapped_witness:
  "reachable ex_pair_swapped \<and> backup_inv ex_pair_swapped \<and>
   state (process_table ex_pair_swapped ! 0) = 1 \<and>
   swapped_processes ex_pair_swapped ! 0 = zero_row \<and>
   state (process_table ex_pair_swapped ! 1) = 0.3 \<and>
   swapped_processes ex_pair_swapped ! 1 \<noteq> zero_row \<and>
   (\<exists>s'. handle_kill ex_pair_swapped 1 = Inr (- 2, s') \<and> backup_inv s' \<and>
      state (process_table s' ! 1) = 0 \<and> swapped_processes s' ! 1 = zero_row)"
proof -
  note n = backup_iff_swapped [of ex_pair_swapped]
  from n ex_pair_swapped_reachable have b: "backup_inv ex_pair_swapped"
    and i: "\<forall>i<k ex_pair_swapped. (swapped_processes ex_pair_swapped ! i \<noteq> zero_row) =
      (state (process_table ex_pair_swapped ! i) = 0.3)"
    by simp_all
  from i [rule_format, of 0] i [rule_format, of 1]
  have z: "swapped_processes ex_pair_swapped ! 0 = zero_row"
    "swapped_processes ex_pair_swapped ! 1 \<noteq> zero_row"
    by (simp_all add: ex_pair_swapped_eval(1,2))
  let ?s = "ex_pair_swapped\<lparr>process_table := (process_table ex_pair_swapped)[1 := zero_row],
      swapped_processes := (swapped_processes ex_pair_swapped)[1 := zero_row]\<rparr>"
  have kl: "handle_kill ex_pair_swapped 1 = Inr (- 2, ?s)"
    by (simp add: handle_kill_def Let_def ex_pair_swapped_eval)
  have "handle_kill \<in> set handlers" by (simp add: handlers_def)
  with n b kl have "backup_inv ?s" by blast
  moreover have "state (process_table ?s ! 1) = 0" "swapped_processes ?s ! 1 = zero_row"
    by (simp_all add: ex_pair_swapped_eval zero_row_sel)
  ultimately show ?thesis
    using kl b z ex_pair_swapped_reachable by (simp add: ex_pair_swapped_eval(2))
qed

section \<open>The spawn pass\<close>

lemma sample_process_ranges:
  assumes "valid_rng g" and "r0 \<le> r1" and "c0 \<le> c1" and "p0 \<le> p1"
  shows "r0 \<le> ram (fst (sample_process r0 r1 c0 c1 p0 p1 g)) \<and>
         ram (fst (sample_process r0 r1 c0 c1 p0 p1 g)) \<le> r1 \<and>
         c0 \<le> cpu (fst (sample_process r0 r1 c0 c1 p0 p1 g)) \<and>
         cpu (fst (sample_process r0 r1 c0 c1 p0 p1 g)) \<le> c1 \<and>
         p0 \<le> priority (fst (sample_process r0 r1 c0 c1 p0 p1 g)) \<and>
         priority (fst (sample_process r0 r1 c0 c1 p0 p1 g)) \<le> p1 \<and>
         state (fst (sample_process r0 r1 c0 c1 p0 p1 g)) = 1"
proof -
  let ?g1 = "snd (uniform r0 r1 g)"
  let ?g2 = "snd (uniform c0 c1 ?g1)"
  from uniform_valid [OF assms(1) assms(2)]
  have a: "r0 \<le> fst (uniform r0 r1 g)" "fst (uniform r0 r1 g) \<le> r1" "valid_rng ?g1"
    by simp_all
  from uniform_valid [OF a(3) assms(3)]
  have b: "c0 \<le> fst (uniform c0 c1 ?g1)" "fst (uniform c0 c1 ?g1) \<le> c1" "valid_rng ?g2"
    by simp_all
  from uniform_valid [OF b(3) assms(4)]
  have c: "p0 \<le> fst (uniform p0 p1 ?g2)" "fst (uniform p0 p1 ?g2) \<le> p1"
    by simp_all
  from a b c show ?thesis
    by (simp add: sample_process_def split_def Let_def)
qed

lemma choice_profile:
  assumes "fst (random_sample g) < 1"
  shows "fst (choice [''idle'', ''active'', ''heavy'', ''leaky''] [0.5, 0.3, 0.15, 0.05] g) =
     (if fst (random_sample g) < 0.5 then ''idle''
      else if fst (random_sample g) < 0.8 then ''active''
      else if fst (random_sample g) < 0.95 then ''heavy'' else ''leaky'')"
  using assms by (simp add: choice_def split_def Let_def)

text \<open>
  What \<^verbatim>\<open>_spawn_new_process\<close> gives a slot it respawns, by the variate \<open>u\<close> that selects
  the profile: idle below 0.5, active below 0.8, heavy below 0.95, leaky from there on,
  each with the ranges written in the method. The leaky range of RAM is \<open>[0.3, 0.5]\<close>.
\<close>

lemma spawn_row_ranges:
  assumes "valid_rng g"
  shows "state (fst (spawn_row g)) = 1 \<and>
    (fst (random_sample g) < 0.5 \<longrightarrow>
       0.01 \<le> ram (fst (spawn_row g)) \<and> ram (fst (spawn_row g)) \<le> 0.05 \<and>
       0 \<le> cpu (fst (spawn_row g)) \<and> cpu (fst (spawn_row g)) \<le> 0.02 \<and>
       0.1 \<le> priority (fst (spawn_row g)) \<and> priority (fst (spawn_row g)) \<le> 0.4) \<and>
    (0.5 \<le> fst (random_sample g) \<and> fst (random_sample g) < 0.8 \<longrightarrow>
       0.1 \<le> ram (fst (spawn_row g)) \<and> ram (fst (spawn_row g)) \<le> 0.4 \<and>
       0.2 \<le> cpu (fst (spawn_row g)) \<and> cpu (fst (spawn_row g)) \<le> 0.5 \<and>
       0.4 \<le> priority (fst (spawn_row g)) \<and> priority (fst (spawn_row g)) \<le> 0.7) \<and>
    (0.8 \<le> fst (random_sample g) \<and> fst (random_sample g) < 0.95 \<longrightarrow>
       0.4 \<le> ram (fst (spawn_row g)) \<and> ram (fst (spawn_row g)) \<le> 0.6 \<and>
       0.6 \<le> cpu (fst (spawn_row g)) \<and> cpu (fst (spawn_row g)) \<le> 0.9 \<and>
       0.7 \<le> priority (fst (spawn_row g)) \<and> priority (fst (spawn_row g)) \<le> 1) \<and>
    (0.95 \<le> fst (random_sample g) \<longrightarrow>
       0.3 \<le> ram (fst (spawn_row g)) \<and> ram (fst (spawn_row g)) \<le> 0.5 \<and>
       0 \<le> cpu (fst (spawn_row g)) \<and> cpu (fst (spawn_row g)) \<le> 0.05 \<and>
       0 \<le> priority (fst (spawn_row g)) \<and> priority (fst (spawn_row g)) \<le> 0.2)"
proof -
  let ?c = "choice [''idle'', ''active'', ''heavy'', ''leaky''] [0.5, 0.3, 0.15, 0.05] g"
  have v: "valid_rng (snd ?c)" using assms by (rule choice_valid)
  from random_sample_valid [OF assms] have u: "fst (random_sample g) < 1" by simp
  note p = choice_profile [OF u]
  note h = sample_process_ranges [OF v, of "0.4" "0.6" "0.6" "0.9" "0.7" "1.0"]
  note l = sample_process_ranges [OF v, of "0.3" "0.5" "0.0" "0.05" "0.0" "0.2"]
  note a = sample_process_ranges [OF v, of "0.1" "0.4" "0.2" "0.5" "0.4" "0.7"]
  note i = sample_process_ranges [OF v, of "0.01" "0.05" "0.0" "0.02" "0.1" "0.4"]
  consider (idle) "fst (random_sample g) < 0.5"
    | (active) "0.5 \<le> fst (random_sample g)" "fst (random_sample g) < 0.8"
    | (heavy) "0.8 \<le> fst (random_sample g)" "fst (random_sample g) < 0.95"
    | (leaky) "0.95 \<le> fst (random_sample g)"
    by linarith
  then show ?thesis
  proof cases
    case idle
    with p have "fst ?c = ''idle''" by simp
    then have "spawn_row g = sample_process 0.01 0.05 0.0 0.02 0.1 0.4 (snd ?c)"
      by (simp add: spawn_row_def split_def Let_def)
    with i idle show ?thesis by simp
  next
    case active
    with p have "fst ?c = ''active''" by simp
    then have "spawn_row g = sample_process 0.1 0.4 0.2 0.5 0.4 0.7 (snd ?c)"
      by (simp add: spawn_row_def split_def Let_def)
    with a active show ?thesis by simp
  next
    case heavy
    with p have "fst ?c = ''heavy''" by simp
    then have "spawn_row g = sample_process 0.4 0.6 0.6 0.9 0.7 1.0 (snd ?c)"
      by (simp add: spawn_row_def split_def Let_def)
    with h heavy show ?thesis by simp
  next
    case leaky
    with p have "fst ?c = ''leaky''" by simp
    then have "spawn_row g = sample_process 0.3 0.5 0.0 0.05 0.0 0.2 (snd ?c)"
      by (simp add: spawn_row_def split_def Let_def)
    with l leaky show ?thesis by simp
  qed
qed


text \<open>
  C1. The spawn pass respawns a Killed slot when its variate is below 0.05 and selects the
  profile as specified, but a respawned leaky process does not get the RAM range of
  \<^verbatim>\<open>reset\<close>: \<^verbatim>\<open>_spawn_new_process\<close> draws it from \<open>[0.3, 0.5]\<close>, \<^verbatim>\<open>reset\<close> from
  \<open>[0.6, 0.8]\<close>. Here the idle process is killed and respawned in the same step with
  the leaky profile; on variates 1/2 its RAM is 0.4, where the generator of \<^verbatim>\<open>reset\<close>
  gives 0.7 on the same variates.
\<close>

theorem spawn_leaky_ram_range:
  "fst (random_sample ex_rng_leaky) < 0.05 \<and>
   fst (choice [''idle'', ''active'', ''heavy'', ''leaky''] [0.5, 0.3, 0.15, 0.05]
          (snd (random_sample ex_rng_leaky))) = ''leaky'' \<and>
   process_table (fst (snd (step ex_idle ex_rng_leaky [0]))) =
     [\<lparr>ram = 0.4, cpu = 0.025, priority = 0.1, state = 1\<rparr>] \<and>
   ram (process_table (fst (snd (step ex_idle ex_rng_leaky [0]))) ! 0) < 0.6 \<and>
   fst (sample_process 0.6 0.8 0.0 0.05 0.0 0.2 (ex_rng_leaky\<lparr>cursor := 2\<rparr>)) =
     \<lparr>ram = 0.7, cpu = 0.025, priority = 0.1, state = 1\<rparr>"
proof -
  have a: "fst (random_sample ex_rng_leaky) < 0.05"
    by (simp add: random_sample_def ex_rng_leaky_def)
  have b: "fst (choice [''idle'', ''active'', ''heavy'', ''leaky''] [0.5, 0.3, 0.15, 0.05]
          (snd (random_sample ex_rng_leaky))) = ''leaky''"
    by (simp add: choice_def random_sample_def ex_rng_leaky_def Let_def)
  have c: "process_table (fst (snd (step ex_idle ex_rng_leaky [0]))) =
     [\<lparr>ram = 0.4, cpu = 0.025, priority = 0.1, state = 1\<rparr>]"
    by (simp add: ex_idle_eval ex_rng_leaky_def step_eval handle_kill_def
          update_system_stats_frame zero_row_sel)
  have d: "fst (sample_process 0.6 0.8 0.0 0.05 0.0 0.2 (ex_rng_leaky\<lparr>cursor := 2\<rparr>)) =
     \<lparr>ram = 0.7, cpu = 0.025, priority = 0.1, state = 1\<rparr>"
    by (simp add: sample_process_def uniform_def random_sample_def ex_rng_leaky_def Let_def)
  from a b c d show ?thesis by simp
qed


section \<open>The seed\<close>

text \<open>The seed reaches \<open>np_random\<close> and nothing else: what \<^verbatim>\<open>reset\<close> returns, the table it
  builds, the statistics and the generator it leaves are the same for every seed.\<close>

lemma reset_ignores_seed:
  "fst (reset s seed g) = fst (reset s seed' g) \<and>
   process_table (fst (snd (reset s seed g))) = process_table (fst (snd (reset s seed' g))) \<and>
   system_stats (fst (snd (reset s seed g))) = system_stats (fst (snd (reset s seed' g))) \<and>
   snd (snd (reset s seed g)) = snd (snd (reset s seed' g))"
proof -
  define h where "h = fst (randint 0 2 g)"
  define g1 where "g1 = snd (randint 0 2 g)"
  define l where "l = fst (randint 0 2 g1)"
  define g2 where "g2 = snd (randint 0 2 g1)"
  define a where "a = fst (randint 0 (int (k s) - h - l + 1) g2)"
  define g3 where "g3 = snd (randint 0 (int (k s) - h - l + 1) g2)"
  define hv where "hv = sample_processes (nat h) (sample_process 0.4 0.6 0.6 0.9 0.7 1.0) g3"
  define lk where "lk = sample_processes (nat l) (sample_process 0.6 0.8 0.0 0.05 0.0 0.2) (snd hv)"
  define ac where "ac = sample_processes (nat a) (sample_process 0.1 0.4 0.2 0.5 0.4 0.7) (snd lk)"
  define ps where "ps = fst hv @ fst lk @ fst ac"
  define idl where "idl = sample_processes (k s - length ps)
      (sample_process 0.01 0.05 0.0 0.02 0.1 0.4) (snd ac)"
  define sh where "sh = shuffle (ps @ fst idl) (snd idl)"
  define s1 where "s1 sd = s\<lparr>np_random := (case sd of None \<Rightarrow> np_random s | Some n \<Rightarrow> Some n),
      current_step := 0\<rparr>" for sd :: "int option"
  define s2 where "s2 sd = s\<lparr>np_random := (case sd of None \<Rightarrow> np_random s | Some n \<Rightarrow> Some n),
      current_step := 0, process_table := fst sh,
      swapped_processes := replicate (k s) zero_row\<rparr>" for sd :: "int option"
  have eq: "reset s sd g =
     (if int (k s) - h - l + 1 \<le> 0 then (Inl ValueError, s1 sd, g2)
      else if k s = 0 then (Inl IndexError, s2 sd, snd sh)
      else (Inr (get_obs (update_system_stats (s2 sd)), ''env_initialized''),
            update_system_stats (s2 sd), snd sh))" for sd
    by (simp add: reset_def Let_def split_def h_def g1_def l_def g2_def a_def g3_def
        hv_def lk_def ac_def ps_def idl_def sh_def s1_def s2_def)
  have u: "system_stats (update_system_stats (s2 sd)) =
      system_stats (update_system_stats (s2 sd'))"
    "process_table (update_system_stats (s2 sd)) = process_table (update_system_stats (s2 sd'))"
    "process_table (s2 sd) = process_table (s2 sd')" "system_stats (s2 sd) = system_stats (s2 sd')"
    "process_table (s1 sd) = process_table (s1 sd')" "system_stats (s1 sd) = system_stats (s1 sd')"
    for sd sd'
    by (simp_all add: s1_def s2_def update_system_stats_def Let_def)
  have o: "get_obs (update_system_stats (s2 sd)) = get_obs (update_system_stats (s2 sd'))"
    for sd sd'
    using u(1,2) [of sd sd'] by (simp add: get_obs_def)
  show ?thesis
    using u [of seed seed'] o [of seed seed'] by (simp add: eq)
qed

text \<open>
  C2. Two instances reset with the same seed do not get the same observation: both
  store the seed, the first draws the variates 0 and builds two idle processes, the
  second draws the variates that follow and builds a heavy and a leaky process.
\<close>

theorem reset_same_seed_differs:
  "np_random (fst (snd ex_first_reset)) = Some 42 \<and>
   np_random (fst (snd ex_second_reset)) = Some 42 \<and>
   process_table (fst (snd ex_first_reset)) =
     [\<lparr>ram = 0.01, cpu = 0, priority = 0.1, state = 1\<rparr>,
      \<lparr>ram = 0.01, cpu = 0, priority = 0.1, state = 1\<rparr>] \<and>
   process_table (fst (snd ex_second_reset)) =
     [\<lparr>ram = 0.5, cpu = 0.75, priority = 0.85, state = 1\<rparr>,
      \<lparr>ram = 0.7, cpu = 0.025, priority = 0.1, state = 1\<rparr>] \<and>
   fst ex_first_reset \<noteq> fst ex_second_reset"
proof -
  have g: "snd (snd ex_first_reset) = ex_rng_seq\<lparr>cursor := 10\<rparr>"
    and n1: "np_random (fst (snd ex_first_reset)) = Some 42"
    and t1: "process_table (fst (snd ex_first_reset)) =
     [\<lparr>ram = 0.01, cpu = 0, priority = 0.1, state = 1\<rparr>,
      \<lparr>ram = 0.01, cpu = 0, priority = 0.1, state = 1\<rparr>]"
    and o1: "\<exists>st. fst ex_first_reset =
      Inr (\<lparr>obs_system_stats = st, obs_process_table =
        [\<lparr>ram = 0.01, cpu = 0, priority = 0.1, state = 1\<rparr>,
         \<lparr>ram = 0.01, cpu = 0, priority = 0.1, state = 1\<rparr>]\<rparr>, ''env_initialized'')"
    by (simp_all add: ex_first_reset_def ex_rng_seq_def reset_eval update_system_stats_frame
          eval_nat_numeral)
  have n2: "np_random (fst (snd ex_second_reset)) = Some 42"
    and t2: "process_table (fst (snd ex_second_reset)) =
     [\<lparr>ram = 0.5, cpu = 0.75, priority = 0.85, state = 1\<rparr>,
      \<lparr>ram = 0.7, cpu = 0.025, priority = 0.1, state = 1\<rparr>]"
    and o2: "\<exists>st. fst ex_second_reset =
      Inr (\<lparr>obs_system_stats = st, obs_process_table =
        [\<lparr>ram = 0.5, cpu = 0.75, priority = 0.85, state = 1\<rparr>,
         \<lparr>ram = 0.7, cpu = 0.025, priority = 0.1, state = 1\<rparr>]\<rparr>, ''env_initialized'')"
    by (simp_all add: ex_second_reset_def g ex_rng_seq_def reset_eval update_system_stats_frame
          eval_nat_numeral)
  from o1 o2 have "fst ex_first_reset \<noteq> fst ex_second_reset" by auto
  with n1 n2 t1 t2 show ?thesis by simp
qed

section \<open>The handlers under the comparison of NumPy 1.x\<close>

lemmas widened_eval = f32_0_3_def f32_0_6_def f64_0_3_def f64_0_6_def f64_0_4_def f64_0_8_def

lemmas step_widened_eval = step_widened_def Let_def py_index_def handlers_widened_def
  apply_process_dynamics_def dynamics_row_def spawn_new_process_def killed_indices_def
  spawn_row_def choice_def sample_process_def uniform_def random_sample_def get_obs_def
  numeral_2_eq_2

text \<open>A stored state code is not the double that its literal denotes, and the stored
  codes differ from each other.\<close>

lemma widened_codes:
  "f32_0_3 \<noteq> f64_0_3" "f32_0_6 \<noteq> f64_0_6" "f32_0_3 \<noteq> f64_0_6" "f32_0_6 \<noteq> f64_0_3"
  "f32_0_3 \<noteq> f32_0_6" "f32_0_3 \<noteq> 0" "f32_0_6 \<noteq> 0" "f32_0_3 \<noteq> 1" "f32_0_6 \<noteq> 1"
  by (simp_all add: widened_eval)

lemma ex_widened_swapped_eval:
  "k ex_widened_swapped = 1"
  "process_table ex_widened_swapped = [\<lparr>ram = 0, cpu = 0, priority = 0.1, state = f32_0_3\<rparr>]"
  "swapped_processes ex_widened_swapped =
     [\<lparr>ram = 0.01, cpu = 0, priority = 0.1, state = 1\<rparr>]"
  "ram_usage (system_stats ex_widened_swapped) = 0.1"
  by (simp_all add: ex_widened_swapped_def ex_idle_eval ex_rng_zero_def step_widened_eval
       handle_swap_out_widened_def widened_eval update_system_stats_frame)
     (simp_all add: stats_eval)

lemma ex_widened_suspended_eval:
  "k ex_widened_suspended = 1"
  "process_table ex_widened_suspended =
     [\<lparr>ram = 0.005, cpu = 0, priority = 0.1, state = f32_0_6\<rparr>]"
  "swapped_processes ex_widened_suspended = [zero_row]"
  "ram_usage (system_stats ex_widened_suspended) = 0.105"
  by (simp_all add: ex_widened_suspended_def ex_idle_eval ex_rng_zero_def step_widened_eval
       handle_suspend_widened_def widened_eval update_system_stats_frame)
     (simp_all add: stats_eval)

text \<open>
  C3. Under NumPy 1.x the swap-in handler does not recognise a Swapped slot. After the
  swap-out of the idle process its row holds the state code 0.3 as \<^verbatim>\<open>float32\<close>, its
  backup holds RAM 0.01, and the RAM usage 0.1 leaves room for it: the process is to be
  restored, for a reward of 0.5. The handler compares the widened code with the
  double 0.3, finds them different, returns \<open>-2\<close> and changes nothing; the step that
  calls it adds \<open>-2\<close> to the reward and leaves the slot Swapped and the backup in place.
\<close>

theorem swap_in_widened_on_swapped:
  "process_table ex_widened_swapped =
     [\<lparr>ram = 0, cpu = 0, priority = 0.1, state = f32_0_3\<rparr>] \<and>
   swapped_processes ex_widened_swapped =
     [\<lparr>ram = 0.01, cpu = 0, priority = 0.1, state = 1\<rparr>] \<and>
   ram_usage (system_stats ex_widened_swapped) +
     ram (swapped_processes ex_widened_swapped ! 0) = 0.11 \<and>
   handle_swap_in_widened ex_widened_swapped 0 = Inr (- 2, ex_widened_swapped) \<and>
   (\<exists>res. fst ex_widened_swap_in = Inr res \<and>
      res_reward res = - 2 + calculate_global_reward (fst (snd ex_widened_swap_in))) \<and>
   process_table (fst (snd ex_widened_swap_in)) =
     [\<lparr>ram = 0, cpu = 0, priority = 0.1, state = f32_0_3\<rparr>] \<and>
   swapped_processes (fst (snd ex_widened_swap_in)) =
     [\<lparr>ram = 0.01, cpu = 0, priority = 0.1, state = 1\<rparr>]"
proof -
  note e = ex_widened_swapped_eval
  have c: "handle_swap_in_widened ex_widened_swapped 0 = Inr (- 2, ex_widened_swapped)"
    by (simp add: handle_swap_in_widened_def e Let_def widened_eval)
  have d: "\<exists>res. fst ex_widened_swap_in = Inr res \<and>
      res_reward res = - 2 + calculate_global_reward (fst (snd ex_widened_swap_in))"
    "process_table (fst (snd ex_widened_swap_in)) =
       [\<lparr>ram = 0, cpu = 0, priority = 0.1, state = f32_0_3\<rparr>]"
    "swapped_processes (fst (snd ex_widened_swap_in)) =
       [\<lparr>ram = 0.01, cpu = 0, priority = 0.1, state = 1\<rparr>]"
    by (simp_all add: ex_widened_swap_in_def e ex_rng_zero_def step_widened_eval
         handle_swap_in_widened_def widened_eval update_system_stats_frame)
  from e c d show ?thesis by simp
qed

text \<open>
  C4. Under NumPy 1.x the suspend handler does not recognise a Swapped slot: on the
  swapped-out idle process it takes none of its three early returns and writes the state
  0.6. After that step the slot is Suspended, not Swapped, and its backup is still the
  saved process, a non-zero row: reset and two steps lead to an instance in which a slot
  that is not Swapped has a backup.
\<close>

theorem suspend_widened_on_swapped:
  "process_table ex_widened_swapped =
     [\<lparr>ram = 0, cpu = 0, priority = 0.1, state = f32_0_3\<rparr>] \<and>
   (\<exists>s'. handle_suspend_widened ex_widened_swapped 0 = Inr (0, s') \<and>
      process_table s' = [\<lparr>ram = 0, cpu = 0, priority = 0.1, state = f32_0_6\<rparr>] \<and>
      swapped_processes s' = [\<lparr>ram = 0.01, cpu = 0, priority = 0.1, state = 1\<rparr>]) \<and>
   process_table (fst (snd ex_widened_swapped_suspend)) =
     [\<lparr>ram = 0, cpu = 0, priority = 0.1, state = f32_0_6\<rparr>] \<and>
   swapped_processes (fst (snd ex_widened_swapped_suspend)) =
     [\<lparr>ram = 0.01, cpu = 0, priority = 0.1, state = 1\<rparr>] \<and>
   swapped_processes (fst (snd ex_widened_swapped_suspend)) ! 0 \<noteq> zero_row \<and>
   state (process_table (fst (snd ex_widened_swapped_suspend)) ! 0) \<noteq> f32_0_3"
proof -
  note e = ex_widened_swapped_eval
  have c: "\<exists>s'. handle_suspend_widened ex_widened_swapped 0 = Inr (0, s') \<and>
      process_table s' = [\<lparr>ram = 0, cpu = 0, priority = 0.1, state = f32_0_6\<rparr>] \<and>
      swapped_processes s' = [\<lparr>ram = 0.01, cpu = 0, priority = 0.1, state = 1\<rparr>]"
    by (simp add: handle_suspend_widened_def e Let_def widened_eval)
  have d: "process_table (fst (snd ex_widened_swapped_suspend)) =
       [\<lparr>ram = 0, cpu = 0, priority = 0.1, state = f32_0_6\<rparr>]"
    "swapped_processes (fst (snd ex_widened_swapped_suspend)) =
       [\<lparr>ram = 0.01, cpu = 0, priority = 0.1, state = 1\<rparr>]"
    by (simp_all add: ex_widened_swapped_suspend_def e ex_rng_zero_def step_widened_eval
         handle_suspend_widened_def widened_eval update_system_stats_frame)
  from e(2) c d widened_codes(5) show ?thesis by (simp add: zero_row_def)
qed

text \<open>
  C8. Under NumPy 1.x a suspend of a slot that is already Suspended is not answered with
  the penalty \<open>-2\<close> and does not leave the slot as it was. The idle process is suspended
  (RAM 0.01 to 0.005); the step that suspends the same slot again returns, its handler
  contributes the reward 0, and the RAM of the slot is halved once more, to 0.0025.
\<close>

theorem suspend_widened_on_suspended:
  "process_table ex_widened_suspended =
     [\<lparr>ram = 0.005, cpu = 0, priority = 0.1, state = f32_0_6\<rparr>] \<and>
   (\<exists>s'. handle_suspend_widened ex_widened_suspended 0 = Inr (0, s') \<and>
      process_table s' = [\<lparr>ram = 0.0025, cpu = 0, priority = 0.1, state = f32_0_6\<rparr>]) \<and>
   (\<exists>res. fst ex_widened_suspend_again = Inr res \<and>
      res_reward res = 0 + calculate_global_reward (fst (snd ex_widened_suspend_again))) \<and>
   process_table (fst (snd ex_widened_suspend_again)) =
     [\<lparr>ram = 0.0025, cpu = 0, priority = 0.1, state = f32_0_6\<rparr>]"
proof -
  note e = ex_widened_suspended_eval
  have c: "\<exists>s'. handle_suspend_widened ex_widened_suspended 0 = Inr (0, s') \<and>
      process_table s' = [\<lparr>ram = 0.0025, cpu = 0, priority = 0.1, state = f32_0_6\<rparr>]"
    by (simp add: handle_suspend_widened_def e Let_def widened_eval)
  have d: "\<exists>res. fst ex_widened_suspend_again = Inr res \<and>
      res_reward res = 0 + calculate_global_reward (fst (snd ex_widened_suspend_again))"
    "process_table (fst (snd ex_widened_suspend_again)) =
       [\<lparr>ram = 0.0025, cpu = 0, priority = 0.1, state = f32_0_6\<rparr>]"
    by (simp_all add: ex_widened_suspend_again_def e ex_rng_zero_def step_widened_eval
         handle_suspend_widened_def widened_eval update_system_stats_frame)
  from e(2) c d show ?thesis by simp
qed

end
